theory Spec2Isabelle
  imports Main "HOL-Library.AList" "HOL-Library.Char_ord" "HOL-Library.List_Lexorder"
begin

section \<open>Conventions of the embedding\<close>

text \<open>
  Python values are modelled as follows.
  \<^item> A \<open>str\<close> is a \<open>string\<close>; it is ordered as Python orders strings
    (lexicographically by character code, a proper prefix first). Characters outside ASCII
    that occur in the program's messages are written as the bytes of their UTF-8 encoding.
  \<^item> A \<open>set\<close> is a HOL set; \<open>sorted(s)\<close> is \<open>sorted_list_of_set s\<close> and
    \<open>len(s)\<close> is \<open>card s\<close>.
  \<^item> A \<open>dict\<close> is an association list in insertion order: \<open>d.get(k)\<close> is
    \<open>map_of d k\<close>, and \<open>d[k] = v\<close> is \<open>AList.update k v d\<close>, which overwrites the
    value of a present key in place and appends an absent key at the end.
  \<^item> An exception is a value of type \<open>error\<close>; a function that may raise returns
    \<open>error + 'a\<close>, with \<open>Inl\<close> for the exception.
  \<^item> A loop is a recursive function with a termination proof. The one loop that can run
    forever on some state (the walk along the parent links in \<open>detect_cycles\<close>) is a
    partial function into \<open>option\<close>: \<open>None\<close> means that it does not return.
  \<^item> Record fields keep the names of the source; where two classes share a field name
    the later one is prefixed (\<open>issue_severity\<close>, \<open>violation_file_path\<close>,
    \<open>git_fetch\<close>, \<open>source_path\<close> for \<open>MigrationInfo.file_path\<close>).
\<close>

datatype error =
    KeyError string
  | ValueError string
  | GitError string string int

section \<open>Risk scoring (core/risk\_scoring.py)\<close>

datatype Severity = LOW | MEDIUM | HIGH | CRITICAL

definition from_score :: "int \<Rightarrow> Severity" where
  "from_score score =
     (if score \<le> 3 then LOW
      else if score \<le> 6 then MEDIUM
      else if score \<le> 9 then HIGH
      else CRITICAL)"

definition DEFAULT_WEIGHTS :: "(string \<times> int) list" where
  "DEFAULT_WEIGHTS =
     [(''drop_table'', 10), (''drop_column'', 8),
      (''non_null_without_default'', 7), (''risky_type_change'', 6),
      (''multiple_heads'', 9), (''branch_behind_target'', 5), (''large_table_alter'', 6)]"

record RiskFinding =
  category :: string
  score :: int
  description :: string
  file_path :: string

record RiskReport =
  findings :: "RiskFinding list"

text \<open>\<open>sum(f.score for f in self.findings)\<close>: Python's \<open>sum\<close> adds from the left,
  starting at 0.\<close>

definition total_score :: "RiskReport \<Rightarrow> int" where
  "total_score r = foldl (+) 0 (map score (findings r))"

definition severity :: "RiskReport \<Rightarrow> Severity" where
  "severity r = from_score (total_score r)"

text \<open>\<open>weights or DEFAULT_WEIGHTS\<close>: an absent or an empty table selects the default
  table; \<open>w.get(category, 5)\<close> then looks the category up.\<close>

definition add :: "RiskReport \<Rightarrow> string \<Rightarrow> string \<Rightarrow> string \<Rightarrow> (string \<times> int) list option \<Rightarrow> RiskReport" where
  "add r cat descr path weights =
     (let w = (case weights of None \<Rightarrow> DEFAULT_WEIGHTS
               | Some ws \<Rightarrow> if ws = [] then DEFAULT_WEIGHTS else ws);
          sc = (case map_of w cat of None \<Rightarrow> 5 | Some v \<Rightarrow> v)
      in r\<lparr>findings := findings r @
            [\<lparr>category = cat, score = sc, description = descr, file_path = path\<rparr>]\<rparr>)"

definition passed :: "RiskReport \<Rightarrow> bool" where
  "passed r = (length (findings r) = 0)"

record RiskScorer =
  weights :: "(string \<times> int) list"
  report :: RiskReport

text \<open>\<open>{**DEFAULT_WEIGHTS, **(weights or {})}\<close>: the custom entries overwrite or extend
  the default table.\<close>

definition RiskScorer_init :: "(string \<times> int) list option \<Rightarrow> RiskScorer" where
  "RiskScorer_init ws =
     \<lparr>weights = foldl (\<lambda>d (k, v). AList.update k v d) DEFAULT_WEIGHTS
                  (case ws of None \<Rightarrow> [] | Some w \<Rightarrow> w),
      report = \<lparr>findings = []\<rparr>\<rparr>"

definition add_finding :: "RiskScorer \<Rightarrow> string \<Rightarrow> string \<Rightarrow> string \<Rightarrow> RiskScorer" where
  "add_finding s cat descr path = s\<lparr>report := add (report s) cat descr path (Some (weights s))\<rparr>"

definition exceeds_threshold :: "RiskScorer \<Rightarrow> int \<Rightarrow> bool" where
  "exceeds_threshold s threshold = (total_score (report s) > threshold)"

definition reset :: "RiskScorer \<Rightarrow> RiskScorer" where
  "reset s = s\<lparr>report := \<lparr>findings = []\<rparr>\<rparr>"

section \<open>The migration graph (core/migration\_graph.py)\<close>

subsection \<open>State, construction and the simple queries\<close>

record MigrationGraph =
  forward :: "(string \<times> string set) list"
  reverse :: "(string \<times> string set) list"
  nodes :: "string set"

definition MigrationGraph_init :: MigrationGraph where
  "MigrationGraph_init = \<lparr>forward = [], reverse = [], nodes = {}\<rparr>"

text \<open>\<open>d.get(k, set())\<close> on an adjacency dictionary.\<close>

definition adj :: "(string \<times> string set) list \<Rightarrow> string \<Rightarrow> string set" where
  "adj d k = (case map_of d k of None \<Rightarrow> {} | Some s \<Rightarrow> s)"

text \<open>\<open>d[k].add(v)\<close> on a \<open>defaultdict(set)\<close>: an absent key is created with the
  empty set first.\<close>

definition dd_add :: "string \<Rightarrow> string \<Rightarrow> (string \<times> string set) list \<Rightarrow> (string \<times> string set) list" where
  "dd_add k v d = AList.update k (insert v (adj d k)) d"

definition add_node :: "MigrationGraph \<Rightarrow> string \<Rightarrow> MigrationGraph" where
  "add_node g node = g\<lparr>nodes := insert node (nodes g)\<rparr>"

definition add_edge :: "MigrationGraph \<Rightarrow> string \<Rightarrow> string \<Rightarrow> MigrationGraph" where
  "add_edge g node dependency =
     g\<lparr>nodes := insert dependency (insert node (nodes g)),
       forward := dd_add node dependency (forward g),
       reverse := dd_add dependency node (reverse g)\<rparr>"

text \<open>\<open>not d.get(n)\<close>: the key is absent or its set is empty.\<close>

definition no_adj :: "(string \<times> string set) list \<Rightarrow> string \<Rightarrow> bool" where
  "no_adj d n = (case map_of d n of None \<Rightarrow> True | Some s \<Rightarrow> s = {})"

definition find_heads :: "MigrationGraph \<Rightarrow> string list" where
  "find_heads g = sorted_list_of_set {n \<in> nodes g. no_adj (reverse g) n}"

definition find_roots :: "MigrationGraph \<Rightarrow> string list" where
  "find_roots g = sorted_list_of_set {n \<in> nodes g. no_adj (forward g) n}"

definition find_orphans :: "MigrationGraph \<Rightarrow> string list" where
  "find_orphans g =
     sorted_list_of_set {n \<in> nodes g. no_adj (forward g) n \<and> no_adj (reverse g) n}"

definition detect_multiple_heads :: "MigrationGraph \<Rightarrow> string list" where
  "detect_multiple_heads g = (let heads = find_heads g in if length heads > 1 then heads else [])"

definition missing_dependencies :: "MigrationGraph \<Rightarrow> (string \<times> string) list" where
  "missing_dependencies g =
     concat (map (\<lambda>(node, deps).
                    map (\<lambda>dep. (node, dep))
                      (filter (\<lambda>dep. dep \<notin> nodes g) (sorted_list_of_set deps)))
                 (forward g))"

subsection \<open>Topological sort\<close>

text \<open>\<open>in_degree = {n: len(self._forward.get(n, set())) for n in self._nodes}\<close>\<close>

definition in_degree_init :: "MigrationGraph \<Rightarrow> (string \<times> int) list" where
  "in_degree_init g =
     map (\<lambda>n. (n, int (card (adj (forward g) n)))) (sorted_list_of_set (nodes g))"

text \<open>
  The inner loop over the dependents of the emitted node:
  \<^verbatim>\<open>
  for dependent in sorted(self._reverse.get(node, set())):
      in_degree[dependent] -= 1
      if in_degree[dependent] == 0:
          queue.append(dependent)
  \<close>
  Reading \<open>in_degree[dependent]\<close> raises \<open>KeyError\<close> for an absent key.
\<close>

fun relax_dependents :: "(string \<times> int) list \<Rightarrow> string list \<Rightarrow> string list \<Rightarrow>
    error + ((string \<times> int) list \<times> string list)" where
  "relax_dependents in_degree queue [] = Inr (in_degree, queue)"
| "relax_dependents in_degree queue (dependent # rest) =
     (case map_of in_degree dependent of
        None \<Rightarrow> Inl (KeyError dependent)
      | Some k \<Rightarrow>
          relax_dependents (AList.update dependent (k - 1) in_degree)
            (if k - 1 = 0 then queue @ [dependent] else queue) rest)"

text \<open>The loop ends: each round takes one node off the queue, and a node joins the
  queue only when its counter leaves the positive numbers.\<close>

definition positive_entries :: "(string \<times> int) list \<Rightarrow> nat" where
  "positive_entries d = length (filter (\<lambda>kv. snd kv > 0) d)"

lemma positive_entries_update:
  "map_of d k = Some v \<Longrightarrow>
   positive_entries (AList.update k w d) + (if v > 0 then 1 else 0)
     = positive_entries d + (if w > 0 then 1 else 0)"
  by (induction d) (auto simp: positive_entries_def)

lemma relax_dependents_measure:
  "relax_dependents d q ds = Inr (d', q') \<Longrightarrow>
   length q' + positive_entries d' \<le> length q + positive_entries d"
proof (induction ds arbitrary: d q)
  case Nil
  then show ?case by simp
next
  case (Cons x ds)
  from Cons.prems obtain k where k: "map_of d x = Some k"
    by (auto split: option.splits)
  let ?d = "AList.update x (k - 1) d"
  let ?q = "if k - 1 = 0 then q @ [x] else q"
  from Cons.prems k have "relax_dependents ?d ?q ds = Inr (d', q')" by simp
  from Cons.IH [OF this] have "length q' + positive_entries d' \<le> length ?q + positive_entries ?d" .
  moreover have "length ?q + positive_entries ?d \<le> length q + positive_entries d"
  proof (cases "k = 1")
    case True
    with positive_entries_update [OF k, of 0] show ?thesis by simp
  next
    case False
    with positive_entries_update [OF k, of "k - 1"] show ?thesis
      by (cases "k > 0") simp_all
  qed
  ultimately show ?case by linarith
qed

text \<open>
  The outer loop:
  \<^verbatim>\<open>
  while queue:
      node = queue.popleft()
      result.append(node)
      for dependent in ...
  \<close>
\<close>

function kahn_loop :: "(string \<times> string set) list \<Rightarrow> (string \<times> int) list \<Rightarrow> string list \<Rightarrow>
    string list \<Rightarrow> error + string list" where
  "kahn_loop rv in_degree [] result = Inr result"
| "kahn_loop rv in_degree (node # queue) result =
     (case relax_dependents in_degree queue (sorted_list_of_set (adj rv node)) of
        Inl e \<Rightarrow> Inl e
      | Inr (in_degree', queue') \<Rightarrow> kahn_loop rv in_degree' queue' (result @ [node]))"
  by pat_completeness auto
termination
proof (relation "measure (\<lambda>(rv, d, q, r). length q + positive_entries d)", goal_cases)
  case 1
  then show ?case by simp
next
  case (2 rv in_degree node queue result x2 in_degree' queue')
  then show ?case
    using relax_dependents_measure [of in_degree queue "sorted_list_of_set (adj rv node)" in_degree' queue']
    by simp
qed

text \<open>The message of the \<open>ValueError\<close>; its dash is U+2013.\<close>

definition cycle_message :: string where
  "cycle_message = ''Migration graph contains cycles '' @ [CHR 0xE2, CHR 0x80, CHR 0x93]
     @ '' topological sort is impossible.''"

definition topological_sort :: "MigrationGraph \<Rightarrow> error + string list" where
  "topological_sort g =
     (let in_degree = in_degree_init g;
          queue = sorted_list_of_set {n \<in> nodes g. map_of in_degree n = Some 0}
      in case kahn_loop (reverse g) in_degree queue [] of
           Inl e \<Rightarrow> Inl e
         | Inr result \<Rightarrow>
             if length result \<noteq> card (nodes g)
             then Inl (ValueError cycle_message)
             else Inr result)"

subsection \<open>Cycle detection\<close>

text \<open>\<open>WHITE, GRAY, BLACK = 0, 1, 2\<close>: unvisited, in progress, done.\<close>

datatype colour = WHITE | GRAY | BLACK

text \<open>\<open>parent.get(x)\<close>: \<open>None\<close> when the key is absent or its value is \<open>None\<close>.\<close>

definition parent_get :: "(string \<times> string option) list \<Rightarrow> string \<Rightarrow> string option" where
  "parent_get parent x = (case map_of parent x of None \<Rightarrow> None | Some p \<Rightarrow> p)"

text \<open>
  The reconstruction of a cycle, started with \<open>cycle = [dep, node]\<close> and
  \<open>cur = parent.get(node)\<close>:
  \<^verbatim>\<open>
  while cur is not None and cur != dep:
      cycle.append(cur)
      cur = parent.get(cur)
  \<close>
  It does not return when the parent links run in a circle that avoids \<open>dep\<close>.
\<close>

partial_function (option) walk_parents ::
    "(string \<times> string option) list \<Rightarrow> string \<Rightarrow> string option \<Rightarrow> string list \<Rightarrow> string list option" where
  "walk_parents parent dep cur cycle =
     (case cur of
        None \<Rightarrow> Some cycle
      | Some c \<Rightarrow>
          if c = dep then Some cycle
          else walk_parents parent dep (parent_get parent c) (cycle @ [c]))"

declare walk_parents.simps [code]

text \<open>
  The loop over the dependencies of the node that has just been coloured gray; the head
  of the list \<open>stack\<close> is the top of the stack (the end of Python's list).
  \<^verbatim>\<open>
  for dep in sorted(self._forward.get(node, set())):
      if color[dep] == GRAY:
          cycle = [dep, node]; cur = parent.get(node)
          while ...
          cycle.reverse(); cycles.append(cycle)
      elif color[dep] == WHITE:
          parent[dep] = node
          stack.append((dep, False))
  \<close>
\<close>

fun visit_deps :: "(string \<times> colour) list \<Rightarrow> string \<Rightarrow> string list \<Rightarrow>
    (string \<times> string option) list \<Rightarrow> string list list \<Rightarrow> (string \<times> bool) list \<Rightarrow>
    (error + ((string \<times> string option) list \<times> string list list \<times> (string \<times> bool) list)) option" where
  "visit_deps color node [] parent cycles stack = Some (Inr (parent, cycles, stack))"
| "visit_deps color node (dep # deps) parent cycles stack =
     (case map_of color dep of
        None \<Rightarrow> Some (Inl (KeyError dep))
      | Some c \<Rightarrow>
          if c = GRAY then
            (case walk_parents parent dep (parent_get parent node) [dep, node] of
               None \<Rightarrow> None
             | Some cycle \<Rightarrow> visit_deps color node deps parent (cycles @ [rev cycle]) stack)
          else if c = WHITE then
            visit_deps color node deps (AList.update dep (Some node) parent) cycles
              ((dep, False) # stack)
          else visit_deps color node deps parent cycles stack)"

text \<open>The traversal ends: a round lowers the number of white entries, or keeps it and
  lowers the weight of the stack, in which an entry of a white node that awaits its
  visit counts 0, a completion entry 1 and any other entry 2.\<close>

definition white_entries :: "(string \<times> colour) list \<Rightarrow> nat" where
  "white_entries color = length (filter (\<lambda>kv. snd kv = WHITE) color)"

definition entry_weight :: "(string \<times> colour) list \<Rightarrow> string \<times> bool \<Rightarrow> nat" where
  "entry_weight color e =
     (if snd e then 1 else if map_of color (fst e) = Some WHITE then 0 else 2)"

definition stack_weight :: "(string \<times> colour) list \<Rightarrow> (string \<times> bool) list \<Rightarrow> nat" where
  "stack_weight color stack = sum_list (map (entry_weight color) stack)"

lemma white_entries_update:
  "white_entries (AList.update k c color) \<le> white_entries color + (if c = WHITE then 1 else 0)"
  by (induction color) (auto simp: white_entries_def)

lemma white_entries_update_white:
  "map_of color k = Some WHITE \<Longrightarrow> c \<noteq> WHITE \<Longrightarrow>
   white_entries (AList.update k c color) < white_entries color"
  by (induction color) (auto simp: white_entries_def less_Suc_eq_le)

lemma entry_weight_update:
  "map_of color k \<noteq> Some WHITE \<Longrightarrow> c \<noteq> WHITE \<Longrightarrow>
   entry_weight (AList.update k c color) e = entry_weight color e"
  by (auto simp: entry_weight_def update_conv')

lemma stack_weight_update:
  "map_of color k \<noteq> Some WHITE \<Longrightarrow> c \<noteq> WHITE \<Longrightarrow>
   stack_weight (AList.update k c color) stack = stack_weight color stack"
  using entry_weight_update [of color k c] by (simp add: stack_weight_def cong: map_cong)

lemma visit_deps_stack_weight:
  "visit_deps color node deps parent cycles stack = Some (Inr (parent', cycles', stack')) \<Longrightarrow>
   stack_weight color stack' = stack_weight color stack"
proof (induction deps arbitrary: parent cycles stack)
  case Nil
  then show ?case by simp
next
  case (Cons dep deps)
  from Cons.prems obtain c where c: "map_of color dep = Some c"
    by (auto split: option.splits)
  show ?case
  proof (cases c)
    case WHITE
    with Cons.prems c
    have "visit_deps color node deps (AList.update dep (Some node) parent) cycles
            ((dep, False) # stack) = Some (Inr (parent', cycles', stack'))"
      by simp
    from Cons.IH [OF this] WHITE c show ?thesis
      by (simp add: stack_weight_def entry_weight_def)
  next
    case GRAY
    with Cons.prems c obtain cycle where
      "visit_deps color node deps parent (cycles @ [rev cycle]) stack
         = Some (Inr (parent', cycles', stack'))"
      by (auto split: option.splits)
    from Cons.IH [OF this] show ?thesis .
  next
    case BLACK
    with Cons.prems c
    have "visit_deps color node deps parent cycles stack = Some (Inr (parent', cycles', stack'))"
      by simp
    from Cons.IH [OF this] show ?thesis .
  qed
qed

text \<open>
  The loop over the stack:
  \<^verbatim>\<open>
  while stack:
      node, processed = stack.pop()
      if processed:
          color[node] = BLACK; continue
      if color[node] == GRAY:
          color[node] = BLACK; continue
      color[node] = GRAY
      stack.append((node, True))
      for dep in ...
  \<close>
\<close>

function dfs_loop :: "(string \<times> string set) list \<Rightarrow> (string \<times> colour) list \<Rightarrow>
    (string \<times> string option) list \<Rightarrow> string list list \<Rightarrow> (string \<times> bool) list \<Rightarrow>
    (error + ((string \<times> colour) list \<times> (string \<times> string option) list \<times> string list list)) option" where
  "dfs_loop fw color parent cycles [] = Some (Inr (color, parent, cycles))"
| "dfs_loop fw color parent cycles ((node, processed) # stack) =
     (if processed then dfs_loop fw (AList.update node BLACK color) parent cycles stack
      else
        (case map_of color node of
           None \<Rightarrow> Some (Inl (KeyError node))
         | Some c \<Rightarrow>
             if c = GRAY then dfs_loop fw (AList.update node BLACK color) parent cycles stack
             else
               (case visit_deps (AList.update node GRAY color) node
                       (sorted_list_of_set (adj fw node)) parent cycles ((node, True) # stack) of
                  None \<Rightarrow> None
                | Some (Inl e) \<Rightarrow> Some (Inl e)
                | Some (Inr (parent', cycles', stack')) \<Rightarrow>
                    dfs_loop fw (AList.update node GRAY color) parent' cycles' stack')))"
  by pat_completeness auto
termination
proof (relation "measures [\<lambda>(fw, color, parent, cycles, stack). white_entries color,
                           \<lambda>(fw, color, parent, cycles, stack). stack_weight color stack]",
       goal_cases)
  case 1
  then show ?case by simp
next
  case (2 fw color parent cycles node processed stack)
  show ?case
  proof (cases "map_of color node = Some WHITE")
    case True
    then show ?thesis by (simp add: white_entries_update_white)
  next
    case False
    with 2 white_entries_update [of node BLACK color] show ?thesis
      by (auto simp: stack_weight_update) (simp add: stack_weight_def entry_weight_def)
  qed
next
  case (3 fw color parent cycles node processed stack c)
  then have "map_of color node \<noteq> Some WHITE" by simp
  with 3 white_entries_update [of node BLACK color] show ?case
    by (auto simp: stack_weight_update) (simp add: stack_weight_def entry_weight_def)
next
  case (4 fw color parent cycles node processed stack c x2 x2a parent' x2b cycles' stack')
  let ?color = "AList.update node GRAY color"
  from 4 have sw: "stack_weight ?color stack' = stack_weight ?color ((node, True) # stack)"
    using visit_deps_stack_weight by blast
  show ?case
  proof (cases "c = WHITE")
    case True
    with 4 show ?thesis by (simp add: white_entries_update_white)
  next
    case False
    with 4 have nw: "map_of color node \<noteq> Some WHITE" by simp
    have "white_entries ?color \<le> white_entries color"
      using white_entries_update [of node GRAY color] by simp
    moreover have "stack_weight ?color stack' < stack_weight color ((node, processed) # stack)"
      using 4 nw sw by (simp add: stack_weight_update) (simp add: stack_weight_def entry_weight_def)
    ultimately show ?thesis by auto
  qed
qed


text \<open>
  The loop over the start nodes:
  \<^verbatim>\<open>
  for start in sorted(self._nodes):
      if color[start] != WHITE: continue
      stack = [(start, False)]
      while stack: ...
  return cycles
  \<close>
\<close>

fun dfs_starts :: "(string \<times> string set) list \<Rightarrow> string list \<Rightarrow> (string \<times> colour) list \<Rightarrow>
    (string \<times> string option) list \<Rightarrow> string list list \<Rightarrow> (error + string list list) option" where
  "dfs_starts fw [] color parent cycles = Some (Inr cycles)"
| "dfs_starts fw (start # starts) color parent cycles =
     (case map_of color start of
        None \<Rightarrow> Some (Inl (KeyError start))
      | Some c \<Rightarrow>
          if c \<noteq> WHITE then dfs_starts fw starts color parent cycles
          else
            (case dfs_loop fw color parent cycles [(start, False)] of
               None \<Rightarrow> None
             | Some (Inl e) \<Rightarrow> Some (Inl e)
             | Some (Inr (color', parent', cycles')) \<Rightarrow> dfs_starts fw starts color' parent' cycles'))"

text \<open>
  The result of \<open>detect_cycles\<close> is \<open>None\<close> when the walk along the parent links
  never ends, \<open>Some (Inl e)\<close> when a dictionary access raises, and \<open>Some (Inr cycles)\<close>
  when the method returns.
\<close>

definition detect_cycles :: "MigrationGraph \<Rightarrow> (error + string list list) option" where
  "detect_cycles g =
     dfs_starts (forward g) (sorted_list_of_set (nodes g))
       (map (\<lambda>n. (n, WHITE)) (sorted_list_of_set (nodes g)))
       (map (\<lambda>n. (n, None)) (sorted_list_of_set (nodes g))) []"

subsection \<open>The aggregate analysis\<close>

record GraphIssue =
  issue_type :: string
  issue_severity :: string
  issue_description :: string
  issue_nodes :: "string list"

text \<open>Python's \<open>str(n)\<close> for the counts that the messages interpolate.\<close>

definition digit_char :: "nat \<Rightarrow> char" where
  "digit_char d = char_of (48 + d)"

function show_nat :: "nat \<Rightarrow> string" where
  "show_nat n = (if n < 10 then [digit_char n] else show_nat (n div 10) @ [digit_char (n mod 10)])"
  by pat_completeness auto
termination
  by (relation "measure id") auto

text \<open>\<open>sep.join(xs)\<close>.\<close>

fun join :: "string \<Rightarrow> string list \<Rightarrow> string" where
  "join sep [] = []"
| "join sep [x] = x"
| "join sep (x # y # ys) = x @ sep @ join sep (y # ys)"

definition multiple_heads_issue :: "string list \<Rightarrow> GraphIssue" where
  "multiple_heads_issue heads =
     \<lparr>issue_type = ''multiple_heads'', issue_severity = ''critical'',
      issue_description = ''Migration graph has '' @ show_nat (length heads) @ '' heads ''
        @ [CHR 0xE2, CHR 0x80, CHR 0x93]
        @ '' this will cause merge conflicts. Create a merge migration to resolve.'',
      issue_nodes = heads\<rparr>"

definition cycle_issue :: "string list \<Rightarrow> GraphIssue" where
  "cycle_issue cycle =
     \<lparr>issue_type = ''cycle'', issue_severity = ''critical'',
      issue_description = ''Circular dependency detected: ''
        @ join ('' '' @ [CHR 0xE2, CHR 0x86, CHR 0x92] @ '' '') cycle
        @ ''. This will prevent migrations from running.'',
      issue_nodes = cycle\<rparr>"

definition missing_dependency_issue :: "string \<times> string \<Rightarrow> GraphIssue" where
  "missing_dependency_issue nd =
     \<lparr>issue_type = ''missing_dependency'', issue_severity = ''critical'',
      issue_description = ''Migration '' @ [CHR 0x27] @ fst nd @ [CHR 0x27] @ '' depends on ''
        @ [CHR 0x27] @ snd nd @ [CHR 0x27] @ '' which does not exist.'',
      issue_nodes = [fst nd, snd nd]\<rparr>"

definition orphan_issue :: "string list \<Rightarrow> GraphIssue" where
  "orphan_issue orphans =
     \<lparr>issue_type = ''orphan'', issue_severity = ''warning'',
      issue_description = ''Found '' @ show_nat (length orphans)
        @ '' orphan migration(s) with no dependencies or dependents.'',
      issue_nodes = orphans\<rparr>"

definition analyze :: "MigrationGraph \<Rightarrow> (error + GraphIssue list) option" where
  "analyze g =
     (let issues0 = [];
          heads = detect_multiple_heads g;
          issues1 = (if heads \<noteq> [] then issues0 @ [multiple_heads_issue heads] else issues0)
      in case detect_cycles g of
           None \<Rightarrow> None
         | Some (Inl e) \<Rightarrow> Some (Inl e)
         | Some (Inr cycles) \<Rightarrow>
             (let issues2 = foldl (\<lambda>issues cycle. issues @ [cycle_issue cycle]) issues1 cycles;
                  issues3 = foldl (\<lambda>issues nd. issues @ [missing_dependency_issue nd]) issues2
                              (missing_dependencies g);
                  orphans = find_orphans g;
                  issues4 = (if orphans \<noteq> [] then issues3 @ [orphan_issue orphans] else issues3)
              in Some (Inr issues4)))"

text \<open>
  The graphs that the class's interface can produce: the attributes are private, so a
  graph is the empty one or the result of \<open>add_node\<close> or \<open>add_edge\<close> on such a graph.
\<close>

inductive constructed :: "MigrationGraph \<Rightarrow> bool" where
  init: "constructed MigrationGraph_init"
| node: "constructed g \<Longrightarrow> constructed (add_node g n)"
| edge: "constructed g \<Longrightarrow> constructed (add_edge g n d)"

subsection \<open>Well-formed graphs and the orders of emission\<close>

text \<open>The dependency relation of a graph: an edge leads from a node to each of its
  forward dependencies. A graph contains a cycle when this relation is not acyclic.\<close>

definition edges :: "MigrationGraph \<Rightarrow> (string \<times> string) set" where
  "edges g = {(n, d). d \<in> adj (forward g) n}"

text \<open>What \<open>add_node\<close> and \<open>add_edge\<close> maintain: finitely many nodes, the
  reverse adjacency as the converse of the forward adjacency, and both ends of every
  edge in the node set.\<close>

definition graph_ok :: "MigrationGraph \<Rightarrow> bool" where
  "graph_ok g =
     (finite (nodes g)
      \<and> (\<forall>n d. (d \<in> adj (forward g) n) = (n \<in> adj (reverse g) d))
      \<and> (\<forall>n. adj (forward g) n \<subseteq> nodes g)
      \<and> (\<forall>n. adj (forward g) n \<noteq> {} \<longrightarrow> n \<in> nodes g))"

text \<open>The remaining in-degree of a node: the number of its forward dependencies that
  have not been emitted yet.\<close>

definition remaining :: "MigrationGraph \<Rightarrow> string set \<Rightarrow> string \<Rightarrow> nat" where
  "remaining g emitted n = card (adj (forward g) n - emitted)"

text \<open>The nodes whose remaining in-degree becomes zero when \<open>x\<close> is emitted, in
  sorted order.\<close>

definition newly_ready :: "MigrationGraph \<Rightarrow> string set \<Rightarrow> string \<Rightarrow> string list" where
  "newly_ready g emitted x =
     sorted_list_of_set {n \<in> nodes g. remaining g emitted n \<noteq> 0
                                    \<and> remaining g (insert x emitted) n = 0}"

text \<open>The invariant of the loop of \<open>topological_sort\<close>: the counters are the
  remaining in-degrees, the nodes that are emitted or queued are those whose
  dependencies are all emitted, and every emitted node comes after its dependencies.\<close>

definition kahn_inv :: "MigrationGraph \<Rightarrow> (string \<times> int) list \<Rightarrow> string list \<Rightarrow> string list \<Rightarrow> bool" where
  "kahn_inv g deg queue result =
     (distinct (result @ queue) \<and> set (result @ queue) \<subseteq> nodes g
      \<and> (\<forall>n \<in> nodes g. map_of deg n = Some (int (remaining g (set result) n)))
      \<and> (\<forall>n \<in> nodes g. (n \<in> set (result @ queue)) = (adj (forward g) n \<subseteq> set result))
      \<and> (\<forall>i < length result. adj (forward g) (result ! i) \<subseteq> set (take i result)))"

text \<open>
  Kahn's algorithm with a first-in-first-out queue, stated on the sets of emitted
  nodes: the front of the queue is emitted, and the nodes whose remaining in-degree
  becomes zero by this emission join the back of the queue in sorted order. A graph of
  \<open>k\<close> nodes needs at most \<open>k\<close> emissions.
\<close>

fun fifo_loop :: "nat \<Rightarrow> MigrationGraph \<Rightarrow> string list \<Rightarrow> string list \<Rightarrow> string list" where
  "fifo_loop 0 g queue result = result"
| "fifo_loop (Suc k) g [] result = result"
| "fifo_loop (Suc k) g (x # queue) result =
     fifo_loop k g (queue @ newly_ready g (set result) x) (result @ [x])"

definition fifo_order :: "MigrationGraph \<Rightarrow> string list" where
  "fifo_order g =
     fifo_loop (card (nodes g)) g (sorted_list_of_set {n \<in> nodes g. remaining g {} n = 0}) []"

text \<open>
  The order that always emits the smallest node among those that are not emitted and
  whose remaining in-degree is zero.
\<close>

fun priority_loop :: "nat \<Rightarrow> MigrationGraph \<Rightarrow> string list \<Rightarrow> string list" where
  "priority_loop 0 g result = result"
| "priority_loop (Suc k) g result =
     (case sorted_list_of_set {n \<in> nodes g. n \<notin> set result \<and> remaining g (set result) n = 0} of
        [] \<Rightarrow> result
      | x # xs \<Rightarrow> priority_loop k g (result @ [x]))"

definition priority_order :: "MigrationGraph \<Rightarrow> string list" where
  "priority_order g = priority_loop (card (nodes g)) g []"

text \<open>What the loop of \<open>topological_sort\<close> leaves on a well-formed graph.\<close>

definition kahn_final :: "MigrationGraph \<Rightarrow> string list \<Rightarrow> bool" where
  "kahn_final g res =
     (distinct res \<and> set res \<subseteq> nodes g
      \<and> (\<forall>n \<in> nodes g. (n \<in> set res) = (adj (forward g) n \<subseteq> set res))
      \<and> (\<forall>i < length res. adj (forward g) (res ! i) \<subseteq> set (take i res)))"

text \<open>
  A graph that is one linear chain \<open>xs\<close>: its nodes are the distinct elements of
  \<open>xs\<close>, and its edges lead from every node after the first to its predecessor.
\<close>

definition is_chain :: "MigrationGraph \<Rightarrow> string list \<Rightarrow> bool" where
  "is_chain g xs =
     (xs \<noteq> [] \<and> distinct xs \<and> nodes g = set xs \<and> edges g = set (zip (tl xs) xs))"

text \<open>No forward edge leaves the node set.\<close>

definition deps_closed :: "MigrationGraph \<Rightarrow> bool" where
  "deps_closed g = (\<forall>(k, s) \<in> set (forward g). s \<subseteq> nodes g)"

subsection \<open>The invariant of the depth-first traversal\<close>

text \<open>The links that \<open>parent\<close> records, as pairs of parent and child.\<close>

definition parent_rel :: "(string \<times> string option) list \<Rightarrow> (string \<times> string) set" where
  "parent_rel parent = {(p, x). parent_get parent x = Some p}"

text \<open>The dependency relation of a forward adjacency dictionary.\<close>

definition dep_rel :: "(string \<times> string set) list \<Rightarrow> (string \<times> string) set" where
  "dep_rel fw = {(n, d). d \<in> adj fw n}"

text \<open>Every dependency of a node that awaits its completion on the stack is done
  (black) or lies above it on the stack.\<close>

fun covered :: "(string \<times> string set) list \<Rightarrow> (string \<times> colour) list \<Rightarrow> string set \<Rightarrow>
    (string \<times> bool) list \<Rightarrow> bool" where
  "covered fw color upper [] = True"
| "covered fw color upper ((n, b) # stack) =
     ((b \<longrightarrow> (\<forall>d \<in> adj fw n. map_of color d = Some BLACK \<or> d \<in> upper))
      \<and> covered fw color (insert n upper) stack)"

text \<open>No node waits for its first visit above its own completion entry.\<close>

fun ordered_stack :: "(string \<times> bool) list \<Rightarrow> bool" where
  "ordered_stack [] = True"
| "ordered_stack ((n, b) # stack) = ((\<not> b \<longrightarrow> (n, True) \<notin> set stack) \<and> ordered_stack stack)"

text \<open>The parts of the invariant: every node in use has a colour; the parent links are
  well-founded and lead to visited nodes only; the gray nodes are those with a
  completion entry on the stack; while no cycle has been reported, no black node lies on
  a cycle.\<close>

definition inv_keys :: "string set \<Rightarrow> (string \<times> colour) list \<Rightarrow> (string \<times> bool) list \<Rightarrow> bool" where
  "inv_keys N color stack = (dom (map_of color) = N \<and> fst ` set stack \<subseteq> N)"

definition inv_parent :: "(string \<times> colour) list \<Rightarrow> (string \<times> string option) list \<Rightarrow> bool" where
  "inv_parent color parent =
     (wf (parent_rel parent)
      \<and> (\<forall>p x. parent_get parent x = Some p \<longrightarrow> map_of color p \<noteq> Some WHITE))"

definition inv_gray :: "(string \<times> colour) list \<Rightarrow> (string \<times> bool) list \<Rightarrow> bool" where
  "inv_gray color stack =
     ((\<forall>n. (map_of color n = Some GRAY) = ((n, True) \<in> set stack))
      \<and> distinct (filter snd stack) \<and> ordered_stack stack)"

definition inv_found :: "(string \<times> string set) list \<Rightarrow> (string \<times> colour) list \<Rightarrow>
    string list list \<Rightarrow> (string \<times> bool) list \<Rightarrow> bool" where
  "inv_found fw color cycles stack =
     ((\<forall>c \<in> set cycles. c \<noteq> [])
      \<and> (cycles = [] \<longrightarrow>
           covered fw color {} stack
           \<and> (\<forall>n. map_of color n = Some BLACK \<longrightarrow> (n, n) \<notin> (dep_rel fw)\<^sup>+)))"

definition dfs_inv :: "(string \<times> string set) list \<Rightarrow> string set \<Rightarrow> (string \<times> colour) list \<Rightarrow>
    (string \<times> string option) list \<Rightarrow> string list list \<Rightarrow> (string \<times> bool) list \<Rightarrow> bool" where
  "dfs_inv fw N color parent cycles stack =
     (inv_keys N color stack \<and> inv_parent color parent \<and> inv_gray color stack
      \<and> inv_found fw color cycles stack)"

text \<open>What the loops establish: the loop over the dependencies pushes exactly the white
  ones and reports a cycle when it meets a gray one; the loop over the stack and the
  loop over the start nodes end with an empty stack and leave no visited node white.\<close>

definition visit_post :: "(string \<times> colour) list \<Rightarrow> string list \<Rightarrow>
    (string \<times> string option) list \<Rightarrow> string list list \<Rightarrow> (string \<times> bool) list \<Rightarrow> bool" where
  "visit_post color deps parent' found new =
     (set new = {(d, False) | d. d \<in> set deps \<and> map_of color d = Some WHITE}
      \<and> inv_parent color parent'
      \<and> (\<forall>c \<in> set found. c \<noteq> [])
      \<and> ((\<exists>d \<in> set deps. map_of color d = Some GRAY) \<longrightarrow> found \<noteq> []))"

definition dfs_post :: "(string \<times> string set) list \<Rightarrow> string set \<Rightarrow> (string \<times> colour) list \<Rightarrow>
    string list list \<Rightarrow> (string \<times> bool) list \<Rightarrow> (string \<times> colour) list \<Rightarrow>
    (string \<times> string option) list \<Rightarrow> string list list \<Rightarrow> bool" where
  "dfs_post fw N color cycles stack color' parent' found =
     (dfs_inv fw N color' parent' (cycles @ found) []
      \<and> (\<forall>n. map_of color n \<noteq> Some WHITE \<longrightarrow> map_of color' n \<noteq> Some WHITE)
      \<and> (\<forall>e \<in> set (take 1 stack). map_of color' (fst e) \<noteq> Some WHITE))"

definition starts_post :: "(string \<times> string set) list \<Rightarrow> string set \<Rightarrow> (string \<times> colour) list \<Rightarrow>
    string list \<Rightarrow> string list list \<Rightarrow> bool" where
  "starts_post fw N color starts cycles' =
     (\<exists>color' parent'.
        dfs_inv fw N color' parent' cycles' []
        \<and> (\<forall>n. map_of color n \<noteq> Some WHITE \<longrightarrow> map_of color' n \<noteq> Some WHITE)
        \<and> (\<forall>s \<in> set starts. map_of color' s \<noteq> Some WHITE))"

section \<open>Building the graph from migration records (core/engine.py)\<close>

text \<open>
  \<^verbatim>\<open>
  graph = MigrationGraph()
  for m in migrations:
      graph.add_node(m.migration_id)
      for dep in m.dependencies:
          graph.add_edge(m.migration_id, dep)
  \<close>
\<close>

record MigrationInfo =
  migration_id :: string
  app_label :: string
  dependencies :: "string list"
  operations :: "string list"
  sql_content :: string
  source_path :: "string option"

definition build_graph :: "MigrationInfo list \<Rightarrow> MigrationGraph" where
  "build_graph migrations =
     foldl (\<lambda>graph m.
              foldl (\<lambda>graph dep. add_edge graph (migration_id m) dep)
                    (add_node graph (migration_id m)) (dependencies m))
           MigrationGraph_init migrations"

section \<open>Branch comparison (core/branch\_compare.py)\<close>

text \<open>Python's \<open>str(i)\<close> for an integer.\<close>

definition show_int :: "int \<Rightarrow> string" where
  "show_int i = (if i < 0 then CHR ''-'' # show_nat (nat (- i)) else show_nat (nat i))"

text \<open>
  The version-control collaborator. \<open>compare\<close> calls each operation at most twice and
  reads nothing else of the repository, so the collaborator is the answers it gives:
  a value, or the exception it raises (\<open>GitError\<close>).
\<close>

record GitClient =
  git_fetch :: "error + unit"
  git_current_branch :: "error + string"
  git_merge_base :: "string \<Rightarrow> string \<Rightarrow> error + string"
  git_commits_between :: "string \<Rightarrow> string \<Rightarrow> error + int"
  git_diff_files :: "string \<Rightarrow> string \<Rightarrow> error + string list"

record ComparisonReport =
  current_branch :: string
  target_branch :: string
  is_behind :: bool
  commits_behind :: int
  current_only :: "string list"
  target_only :: "string list"
  parallel_migrations :: "string list"
  suggestions :: "string list"

text \<open>\<open>ComparisonReport(target_branch=target_branch)\<close>: every other field has its
  default.\<close>

definition ComparisonReport_init :: "string \<Rightarrow> ComparisonReport" where
  "ComparisonReport_init target =
     \<lparr>current_branch = [], target_branch = target, is_behind = False, commits_behind = 0,
      current_only = [], target_only = [], parallel_migrations = [], suggestions = []\<rparr>"

definition has_issues :: "ComparisonReport \<Rightarrow> bool" where
  "has_issues r = (is_behind r \<or> parallel_migrations r \<noteq> [] \<or> target_only r \<noteq> [])"

text \<open>\<open>s.split(sep)\<close> for a one-character separator.\<close>

fun split_on :: "char \<Rightarrow> string \<Rightarrow> string list" where
  "split_on c [] = [[]]"
| "split_on c (x # xs) =
     (if x = c then [] # split_on c xs
      else (case split_on c xs of [] \<Rightarrow> [[x]] | p # ps \<Rightarrow> (x # p) # ps))"

definition endswith :: "string \<Rightarrow> string \<Rightarrow> bool" where
  "endswith s suf = (length suf \<le> length s \<and> drop (length s - length suf) s = suf)"

definition is_migration_file :: "string \<Rightarrow> bool" where
  "is_migration_file path =
     (let parts = split_on CHR ''/'' (map (\<lambda>c. if c = CHR 0x5C then CHR ''/'' else c) path)
      in if \<not> endswith path ''.py'' then False
         else if ''migrations'' \<in> set parts then True
         else if ''versions'' \<in> set parts then True
         else False)"

definition migration_files_in_diff :: "GitClient \<Rightarrow> string \<Rightarrow> string \<Rightarrow> error + string set" where
  "migration_files_in_diff git base_ref head_ref =
     (case git_diff_files git base_ref head_ref of
        Inl e \<Rightarrow> Inl e
      | Inr all_files \<Rightarrow> Inr (set (filter is_migration_file all_files)))"

definition generate_suggestions :: "ComparisonReport \<Rightarrow> ComparisonReport" where
  "generate_suggestions r =
     (let s1 = (if is_behind r
                then [''Your branch is '' @ show_int (commits_behind r) @ '' commit(s) behind ''
                      @ [CHR 0x27] @ target_branch r @ [CHR 0x27]
                      @ ''. Rebase or merge the target branch first.'']
                else []);
          s2 = (if target_only r \<noteq> []
                then [''Target branch has '' @ show_nat (length (target_only r))
                      @ '' new migration(s) not in your branch. Merge target into your branch and resolve any migration conflicts.'']
                else []);
          s3 = (if parallel_migrations r \<noteq> []
                then [''Found '' @ show_nat (length (parallel_migrations r))
                      @ '' parallel migration file(s) modified in both branches. This is likely to cause merge conflicts. Coordinate with the other branch author.'']
                else []);
          s4 = (if current_only r \<noteq> [] \<and> target_only r \<noteq> []
                then [''Both branches added new migrations. After merging, run ''
                      @ [CHR 0x27] @ ''makemigrations --merge'' @ [CHR 0x27] @ '' (Django) or ''
                      @ [CHR 0x27] @ ''alembic merge'' @ [CHR 0x27]
                      @ '' (Alembic) to create a merge migration.'']
                else [])
      in r\<lparr>suggestions := suggestions r @ s1 @ s2 @ s3 @ s4\<rparr>)"

definition compare :: "GitClient \<Rightarrow> string \<Rightarrow> error + ComparisonReport" where
  "compare git target =
     (let report0 = ComparisonReport_init target in
      case git_fetch git of
        Inl e \<Rightarrow> Inl e
      | Inr _ \<Rightarrow>
     (case git_current_branch git of
        Inl e \<Rightarrow> Inl e
      | Inr cur \<Rightarrow>
     (let report1 = report0\<lparr>current_branch := cur\<rparr> in
      case git_merge_base git cur target of
        Inl e \<Rightarrow> Inl e
      | Inr merge_base \<Rightarrow>
      if merge_base = [] then
        Inr (report1\<lparr>suggestions := suggestions report1 @
               [''Could not determine merge base. Ensure both branches share a common ancestor.'']\<rparr>)
      else
     (case git_commits_between git merge_base target of
        Inl e \<Rightarrow> Inl e
      | Inr behind \<Rightarrow>
     (let report2 = report1\<lparr>commits_behind := behind, is_behind := (behind > 0)\<rparr> in
      case migration_files_in_diff git merge_base cur of
        Inl e \<Rightarrow> Inl e
      | Inr current_files \<Rightarrow>
     (case migration_files_in_diff git merge_base target of
        Inl e \<Rightarrow> Inl e
      | Inr target_files \<Rightarrow>
        Inr (generate_suggestions
              (report2\<lparr>current_only := sorted_list_of_set (current_files - target_files),
                       target_only := sorted_list_of_set (target_files - current_files),
                       parallel_migrations := sorted_list_of_set (current_files \<inter> target_files)\<rparr>))))))))"

section \<open>The lint rule for NOT NULL columns (rules/non\_null\_rule.py)\<close>

subsection \<open>Regular expressions\<close>

text \<open>
  The patterns of the rule use literal characters (compared without regard to case,
  \<open>re.IGNORECASE\<close>), the classes \<open>\s\<close>, \<open>\w\<close> and \<open>[^;]\<close> under the greedy
  repetitions \<open>*\<close> and \<open>+\<close>, the word boundary \<open>\b\<close> and one negative lookahead.
  A pattern is a sequence of such items. The content is read as ASCII text.
\<close>

datatype item =
    Chr "char \<Rightarrow> bool"
  | Many "char \<Rightarrow> bool" nat
  | Boundary
  | NotAhead "item list"

definition is_space :: "char \<Rightarrow> bool" where
  "is_space c = (let n = (of_char c :: nat) in (9 \<le> n \<and> n \<le> 13) \<or> (28 \<le> n \<and> n \<le> 32))"

definition is_word :: "char \<Rightarrow> bool" where
  "is_word c = (let n = (of_char c :: nat) in
     (48 \<le> n \<and> n \<le> 57) \<or> (65 \<le> n \<and> n \<le> 90) \<or> n = 95 \<or> (97 \<le> n \<and> n \<le> 122))"

definition lower :: "char \<Rightarrow> char" where
  "lower c = (let n = (of_char c :: nat) in if 65 \<le> n \<and> n \<le> 90 then char_of (n + 32) else c)"

text \<open>A literal word under \<open>re.IGNORECASE\<close>.\<close>

definition lit :: "string \<Rightarrow> item list" where
  "lit w = map (\<lambda>x. Chr (\<lambda>c. lower c = lower x)) w"

text \<open>
  The matcher walks along the string: it sees the character before the current position
  (\<open>None\<close> at the start of the string) and the rest of the string from the position on.
  \<open>\b\<close> holds where exactly one of the character before and the character after the
  position is a word character (the ends of the string count as non-word).
\<close>

definition boundary :: "char option \<Rightarrow> string \<Rightarrow> bool" where
  "boundary prev rest =
     ((case prev of None \<Rightarrow> False | Some c \<Rightarrow> is_word c)
      \<noteq> (case rest of [] \<Rightarrow> False | c # cs \<Rightarrow> is_word c))"

fun items :: "item list \<Rightarrow> nat" where
  "items [] = 0"
| "items (NotAhead q # r) = Suc (items q + items r)"
| "items (x # r) = Suc (items r)"

text \<open>
  \<open>match_here p prev rest\<close> is the length of the match of \<open>p\<close> that starts where
  \<open>rest\<close> starts, as the backtracking matcher finds it: a greedy repetition takes as
  many characters as it can and gives them back one by one while the rest of the pattern
  fails.
\<close>

function match_here :: "item list \<Rightarrow> char option \<Rightarrow> string \<Rightarrow> nat option" where
  "match_here [] prev rest = Some 0"
| "match_here (Chr p # r) prev [] = None"
| "match_here (Chr p # r) prev (c # cs) =
     (if p c then map_option Suc (match_here r (Some c) cs) else None)"
| "match_here (Many p k # r) prev [] = (if k = 0 then match_here r prev [] else None)"
| "match_here (Many p k # r) prev (c # cs) =
     (if p c then
        (case match_here (Many p (k - 1) # r) (Some c) cs of
           Some n \<Rightarrow> Some (Suc n)
         | None \<Rightarrow> if k = 0 then match_here r prev (c # cs) else None)
      else if k = 0 then match_here r prev (c # cs) else None)"
| "match_here (Boundary # r) prev rest = (if boundary prev rest then match_here r prev rest else None)"
| "match_here (NotAhead q # r) prev rest =
     (case match_here q prev rest of None \<Rightarrow> match_here r prev rest | Some n \<Rightarrow> None)"
  by pat_completeness auto
termination
  by (relation "measures [\<lambda>(p, prev, rest). items p, \<lambda>(p, prev, rest). length rest]") auto

text \<open>\<open>pattern.search(s)\<close>, as a truth value: some position starts a match.\<close>

fun search_from :: "item list \<Rightarrow> char option \<Rightarrow> string \<Rightarrow> bool" where
  "search_from p prev [] = (match_here p prev [] \<noteq> None)"
| "search_from p prev (c # cs) = (match_here p prev (c # cs) \<noteq> None \<or> search_from p (Some c) cs)"

definition search :: "item list \<Rightarrow> string \<Rightarrow> bool" where
  "search p s = search_from p None s"

text \<open>
  \<open>pattern.finditer(s)\<close>: the matches from left to right, as pairs of start and end; the
  scan resumes at the end of a match. (No pattern of the rule matches the empty string;
  after an empty match the scan moves on by one character.)
\<close>

function finditer_from :: "item list \<Rightarrow> char option \<Rightarrow> string \<Rightarrow> nat \<Rightarrow> (nat \<times> nat) list" where
  "finditer_from p prev rest pos =
     (case match_here p prev rest of
        Some n \<Rightarrow>
          (pos, pos + n) #
            (if rest = [] then []
             else (let k = max n 1
                   in finditer_from p (Some (last (take k rest))) (drop k rest) (pos + k)))
      | None \<Rightarrow>
          (case rest of
             [] \<Rightarrow> []
           | c # cs \<Rightarrow> finditer_from p (Some c) cs (Suc pos)))"
  by pat_completeness auto
termination
  by (relation "measure (\<lambda>(p, prev, rest, pos). length rest)") auto

definition finditer :: "item list \<Rightarrow> string \<Rightarrow> (nat \<times> nat) list" where
  "finditer p s = finditer_from p None s 0"

definition ADD_COL_NOT_NULL_SQL_RE :: "item list" where
  "ADD_COL_NOT_NULL_SQL_RE =
     [Boundary] @ lit ''ADD'' @ [Many is_space 1] @ lit ''COLUMN'' @ [Many is_space 1]
     @ [Many is_word 1, Many is_space 1, Many is_word 1, Many (\<lambda>c. c \<noteq> CHR '';'') 0, Boundary]
     @ lit ''NOT'' @ [Many is_space 1] @ lit ''NULL'' @ [Boundary]
     @ [NotAhead ([Many (\<lambda>c. c \<noteq> CHR '';'') 0, Boundary] @ lit ''DEFAULT'' @ [Boundary])]"

definition DJANGO_ADD_FIELD_RE :: "item list" where
  "DJANGO_ADD_FIELD_RE = [Boundary] @ lit ''AddField'' @ [Boundary]"

definition DJANGO_NULL_FALSE_RE :: "item list" where
  "DJANGO_NULL_FALSE_RE =
     [Boundary] @ lit ''null'' @ [Many is_space 0] @ lit ''='' @ [Many is_space 0]
     @ lit ''False'' @ [Boundary]"

definition DJANGO_DEFAULT_RE :: "item list" where
  "DJANGO_DEFAULT_RE = [Boundary] @ lit ''default'' @ [Many is_space 0] @ lit ''=''"

definition ALEMBIC_ADD_COL_RE :: "item list" where
  "ALEMBIC_ADD_COL_RE = [Boundary] @ lit ''op.add_column'' @ [Boundary]"

definition ALEMBIC_NULLABLE_FALSE_RE :: "item list" where
  "ALEMBIC_NULLABLE_FALSE_RE =
     [Boundary] @ lit ''nullable'' @ [Many is_space 0] @ lit ''='' @ [Many is_space 0]
     @ lit ''False'' @ [Boundary]"

subsection \<open>The rule\<close>

datatype ViolationSeverity = V_INFO | V_WARNING | V_ERROR | V_CRITICAL

record RuleViolation =
  rule_id :: string
  violation_severity :: ViolationSeverity
  violation_file_path :: string
  message :: string
  explanation :: string
  suggested_fix :: string
  example_snippet :: string
  line_hint :: "int option"

text \<open>\<open>content[:start].count("\n") + 1\<close>.\<close>

definition line_of :: "string \<Rightarrow> nat \<Rightarrow> int" where
  "line_of content start = int (length (filter (\<lambda>c. c = CHR 0x0A) (take start content))) + 1"

definition make_violation :: "MigrationInfo \<Rightarrow> int \<Rightarrow> string \<Rightarrow> RuleViolation" where
  "make_violation migration line_no msg =
     \<lparr>rule_id = ''non-null-without-default'',
      violation_severity = V_ERROR,
      violation_file_path = (case source_path migration of None \<Rightarrow> [] | Some p \<Rightarrow> p),
      message = msg,
      explanation = ''Adding a NOT NULL column without a default value will fail on tables that already contain rows.'',
      suggested_fix = ''Use a two-step migration approach:'' @ [CHR 0x0A]
        @ ''1. Add the column as nullable with a default value.'' @ [CHR 0x0A]
        @ ''2. Back-fill existing rows.'' @ [CHR 0x0A]
        @ ''3. In a separate migration, set NOT NULL.'',
      example_snippet = ''# Step 1:'' @ [CHR 0x0A]
        @ ''ALTER TABLE users ADD COLUMN role VARCHAR(50) DEFAULT '' @ [CHR 0x27] @ ''member''
        @ [CHR 0x27] @ '';'' @ [CHR 0x0A]
        @ ''# Step 2:'' @ [CHR 0x0A]
        @ ''UPDATE users SET role = '' @ [CHR 0x27] @ ''member'' @ [CHR 0x27]
        @ '' WHERE role IS NULL;'' @ [CHR 0x0A]
        @ ''# Step 3:'' @ [CHR 0x0A]
        @ ''ALTER TABLE users ALTER COLUMN role SET NOT NULL;'',
      line_hint = Some line_no\<rparr>"

text \<open>\<open>content[start:min(start + 300, len(content))]\<close>.\<close>

definition window :: "string \<Rightarrow> nat \<Rightarrow> string" where
  "window content start = take (min (start + 300) (length content) - start) (drop start content)"

definition check_django_add_field :: "string \<Rightarrow> MigrationInfo \<Rightarrow> RuleViolation list \<Rightarrow> RuleViolation list" where
  "check_django_add_field content migration violations =
     foldl (\<lambda>vs (start, e).
              let ctx = window content start in
              if search DJANGO_NULL_FALSE_RE ctx \<and> \<not> search DJANGO_DEFAULT_RE ctx
              then vs @ [make_violation migration (line_of content start)
                           ''Django AddField with null=False and no default value'']
              else vs)
           violations (finditer DJANGO_ADD_FIELD_RE content)"

definition check_alembic_add_column :: "string \<Rightarrow> MigrationInfo \<Rightarrow> RuleViolation list \<Rightarrow> RuleViolation list" where
  "check_alembic_add_column content migration violations =
     foldl (\<lambda>vs (start, e).
              let ctx = window content start in
              if search ALEMBIC_NULLABLE_FALSE_RE ctx
              then vs @ [make_violation migration (line_of content start)
                           ''Alembic op.add_column() with nullable=False'']
              else vs)
           violations (finditer ALEMBIC_ADD_COL_RE content)"

definition evaluate :: "MigrationInfo \<Rightarrow> RuleViolation list" where
  "evaluate migration =
     (let content = sql_content migration;
          violations = foldl (\<lambda>vs (start, e).
                          vs @ [make_violation migration (line_of content start)
                                  ''SQL ADD COLUMN NOT NULL without DEFAULT detected''])
                        [] (finditer ADD_COL_NOT_NULL_SQL_RE content);
          violations = check_django_add_field content migration violations
      in check_alembic_add_column content migration violations)"

section \<open>Example inputs\<close>

text \<open>A single record whose only dependency is the id of no record.\<close>

definition dangling_records :: "MigrationInfo list" where
  "dangling_records =
     [\<lparr>migration_id = ''a'', app_label = ''app'', dependencies = [''x''],
       operations = [], sql_content = [], source_path = None\<rparr>]"

text \<open>
  Two version-control collaborators that find no merge base: in a repository without the
  remote \<open>origin\<close> the fetch fails; in a repository with unrelated histories it
  succeeds.
\<close>

definition no_remote_git :: GitClient where
  "no_remote_git =
     \<lparr>git_fetch = Inl (GitError ''fetch'' ''fatal: origin does not appear to be a git repository'' 128),
      git_current_branch = Inr ''feature'',
      git_merge_base = (\<lambda>a b. Inr []),
      git_commits_between = (\<lambda>a b. Inr 0),
      git_diff_files = (\<lambda>a b. Inr [])\<rparr>"

definition unrelated_git :: GitClient where
  "unrelated_git =
     \<lparr>git_fetch = Inr (),
      git_current_branch = Inr ''feature'',
      git_merge_base = (\<lambda>a b. Inr []),
      git_commits_between = (\<lambda>a b. Inr 3),
      git_diff_files = (\<lambda>a b. Inr [''app/migrations/0002_x.py''])\<rparr>"

text \<open>
  Two migrations that add a column which forbids null and has a default: one as an
  Alembic call, one as a Django operation.
\<close>

definition alembic_with_default :: MigrationInfo where
  "alembic_with_default =
     \<lparr>migration_id = ''rev2'', app_label = ''alembic'', dependencies = [], operations = [],
      sql_content = ''op.add_column(t, Column(n, Integer, nullable=False, default=0))'',
      source_path = None\<rparr>"

definition django_with_default :: MigrationInfo where
  "django_with_default =
     \<lparr>migration_id = ''app.0002'', app_label = ''app'', dependencies = [], operations = [],
      sql_content = ''AddField(model_name=m, name=n, field=IntegerField(null=False, default=0))'',
      source_path = None\<rparr>"

text \<open>Two small graphs: two roots with a dependent of the first, and a chain.\<close>

definition fork_graph :: MigrationGraph where
  "fork_graph = add_edge (add_node (add_node MigrationGraph_init ''b'') ''c'') ''a'' ''b''"

definition chain_graph :: MigrationGraph where
  "chain_graph = add_edge (add_edge MigrationGraph_init ''b'' ''a'') ''c'' ''b''"

text \<open>A graph of one cycle, and a graph with a cycle, two heads and an orphan.\<close>

definition cycle_graph :: MigrationGraph where
  "cycle_graph = add_edge (add_edge MigrationGraph_init ''a'' ''b'') ''b'' ''a''"

definition mixed_graph :: MigrationGraph where
  "mixed_graph =
     add_node (add_edge (add_edge (add_edge MigrationGraph_init ''a'' ''b'') ''b'' ''a'')
                 ''c'' ''a'') ''z''"

section \<open>Properties\<close>

subsection \<open>Risk scoring\<close>

lemma foldl_add_sum_list: "foldl (+) (a::int) xs = a + sum_list xs"
  by (induction xs arbitrary: a) simp_all

lemma from_score_bands:
  "(from_score s = LOW) = (s \<le> 3)"
  "(from_score s = MEDIUM) = (4 \<le> s \<and> s \<le> 6)"
  "(from_score s = HIGH) = (7 \<le> s \<and> s \<le> 9)"
  "(from_score s = CRITICAL) = (10 \<le> s)"
  by (auto simp: from_score_def)

text \<open>
  C5. For every sequence of risk findings, the total score is the sum of the findings'
  scores, and the severity is decided by the total alone with exact boundaries: LOW up
  to 3, MEDIUM from 4 to 6, HIGH from 7 to 9, CRITICAL from 10 on; in particular 0 and 3
  are LOW, 4 and 6 MEDIUM, 7 and 9 HIGH, 10 and 100 CRITICAL.
\<close>

theorem C5_total_score_and_severity_bands:
  "total_score \<lparr>findings = fs\<rparr> = (\<Sum>f\<leftarrow>fs. score f)
   \<and> (severity \<lparr>findings = fs\<rparr> = LOW) = ((\<Sum>f\<leftarrow>fs. score f) \<le> 3)
   \<and> (severity \<lparr>findings = fs\<rparr> = MEDIUM) = (4 \<le> (\<Sum>f\<leftarrow>fs. score f) \<and> (\<Sum>f\<leftarrow>fs. score f) \<le> 6)
   \<and> (severity \<lparr>findings = fs\<rparr> = HIGH) = (7 \<le> (\<Sum>f\<leftarrow>fs. score f) \<and> (\<Sum>f\<leftarrow>fs. score f) \<le> 9)
   \<and> (severity \<lparr>findings = fs\<rparr> = CRITICAL) = (10 \<le> (\<Sum>f\<leftarrow>fs. score f))
   \<and> from_score 0 = LOW \<and> from_score 3 = LOW
   \<and> from_score 4 = MEDIUM \<and> from_score 6 = MEDIUM
   \<and> from_score 7 = HIGH \<and> from_score 9 = HIGH
   \<and> from_score 10 = CRITICAL \<and> from_score 100 = CRITICAL"
proof -
  have total: "total_score \<lparr>findings = fs\<rparr> = (\<Sum>f\<leftarrow>fs. score f)"
    by (simp add: total_score_def foldl_add_sum_list)
  have sev: "severity \<lparr>findings = fs\<rparr> = from_score (\<Sum>f\<leftarrow>fs. score f)"
    by (simp add: severity_def total)
  show ?thesis
    unfolding sev from_score_bands
    by (simp add: total from_score_def)
qed

text \<open>
  C10. A report has passed exactly when it holds no finding: the empty report has passed,
  and after \<open>add\<close> (with any weight table, so also one that scores the category 0) or
  the scorer's \<open>add_finding\<close> the report has not passed, whatever the total score is.
\<close>

theorem C10_passed_iff_no_findings:
  "passed r = (findings r = [])
   \<and> passed \<lparr>findings = []\<rparr>
   \<and> \<not> passed (add r cat descr path ws)
   \<and> \<not> passed (report (add_finding s cat descr path))
   \<and> \<not> passed (add \<lparr>findings = []\<rparr> ''custom'' descr path (Some [(''custom'', 0)]))
   \<and> total_score (add \<lparr>findings = []\<rparr> ''custom'' descr path (Some [(''custom'', 0)])) = 0"
  by (simp add: passed_def add_def add_finding_def total_score_def Let_def)

subsection \<open>Construction is idempotent\<close>

lemma adj_update: "adj (AList.update k s d) k' = (if k' = k then s else adj d k')"
  by (simp add: adj_def update_conv')

lemma dd_add_idem: "dd_add k v (dd_add k v d) = dd_add k v d"
  by (simp add: dd_add_def adj_update)

text \<open>
  C9. \<open>add_node\<close> and \<open>add_edge\<close> are idempotent on every graph state: a second call
  with the same arguments leaves the node set and both adjacency dictionaries as the
  first call left them, and \<open>add_edge\<close> puts both endpoints into the node set and
  records the edge in both directions.
\<close>

theorem C9_add_node_add_edge_idempotent:
  "add_node (add_node g n) n = add_node g n
   \<and> add_edge (add_edge g n d) n d = add_edge g n d
   \<and> n \<in> nodes (add_edge g n d) \<and> d \<in> nodes (add_edge g n d)
   \<and> d \<in> adj (forward (add_edge g n d)) n
   \<and> n \<in> adj (reverse (add_edge g n d)) d"
  by (simp add: add_node_def add_edge_def dd_add_idem insert_commute)
    (simp add: dd_add_def adj_update)

subsection \<open>Dependencies are never missing from the node set\<close>

lemma set_update_subset: "set (AList.update k v al) \<subseteq> insert (k, v) (set al)"
  by (induction al) auto

lemma adj_subset:
  assumes "\<forall>(k, s) \<in> set d. s \<subseteq> N"
  shows "adj d k \<subseteq> N"
proof (cases "map_of d k")
  case None
  then show ?thesis by (simp add: adj_def)
next
  case (Some s)
  then have "(k, s) \<in> set d" by (rule map_of_SomeD)
  with assms Some show ?thesis by (auto simp: adj_def)
qed

lemma deps_closed_init: "deps_closed MigrationGraph_init"
  by (simp add: deps_closed_def MigrationGraph_init_def)

lemma deps_closed_add_node: "deps_closed g \<Longrightarrow> deps_closed (add_node g n)"
  by (auto simp: deps_closed_def add_node_def)

lemma deps_closed_add_edge:
  assumes "deps_closed g"
  shows "deps_closed (add_edge g n d)"
proof -
  have "adj (forward g) n \<subseteq> nodes g"
    using assms adj_subset [of "forward g" "nodes g" n] by (simp add: deps_closed_def)
  moreover have "(k, s) \<in> set (forward g) \<Longrightarrow> s \<subseteq> nodes g" for k s
    using assms by (auto simp: deps_closed_def)
  ultimately have "s \<subseteq> insert d (insert n (nodes g))"
    if "(k, s) \<in> set (AList.update n (insert d (adj (forward g) n)) (forward g))" for k s
    using that set_update_subset [of n "insert d (adj (forward g) n)" "forward g"]
    by blast
  then show ?thesis
    unfolding deps_closed_def add_edge_def dd_add_def by auto
qed

lemma deps_closed_no_missing:
  assumes "deps_closed g"
  shows "missing_dependencies g = []"
proof -
  have "filter (\<lambda>dep. dep \<notin> nodes g) (sorted_list_of_set s) = []" if "(k, s) \<in> set (forward g)" for k s
  proof -
    from assms that have sub: "s \<subseteq> nodes g" by (auto simp: deps_closed_def)
    have "set (sorted_list_of_set s) \<subseteq> s"
      by (cases "finite s") auto
    with sub show ?thesis by (auto simp: filter_empty_conv)
  qed
  then show ?thesis
    by (auto simp: missing_dependencies_def)
qed

lemma deps_closed_foldl_add_edge:
  "deps_closed g \<Longrightarrow> deps_closed (foldl (\<lambda>graph dep. add_edge graph n dep) g ds)"
  by (induction ds arbitrary: g) (simp_all add: deps_closed_add_edge)

lemma deps_closed_build_step:
  "deps_closed g \<Longrightarrow>
   deps_closed (foldl (\<lambda>graph m. foldl (\<lambda>graph dep. add_edge graph (migration_id m) dep)
                    (add_node graph (migration_id m)) (dependencies m)) g ms)"
  by (induction ms arbitrary: g)
     (simp_all add: deps_closed_foldl_add_edge deps_closed_add_node)

lemma build_graph_no_missing: "missing_dependencies (build_graph ms) = []"
  by (simp add: build_graph_def deps_closed_no_missing deps_closed_build_step deps_closed_init)

lemma constructed_deps_closed: "constructed g \<Longrightarrow> deps_closed g"
  by (induction rule: constructed.induct)
     (simp_all add: deps_closed_init deps_closed_add_node deps_closed_add_edge)

text \<open>
  C1. The claim is that a dependency id that is the id of no record is reported by
  \<open>missing_dependencies\<close> and by \<open>analyze\<close>. The code does not do so:
  \<open>add_edge\<close> puts the dependency into the node set, so no forward edge ever leaves
  the node set (\<open>build_graph_no_missing\<close>). On the single record \<open>a\<close> that
  depends on the unknown id \<open>x\<close>, both methods report nothing.
\<close>

theorem C1_dangling_dependency_not_reported:
  "''x'' \<in> set (dependencies (hd dangling_records))
   \<and> ''x'' \<notin> set (map migration_id dangling_records)
   \<and> missing_dependencies (build_graph dangling_records) = []
   \<and> analyze (build_graph dangling_records) = Some (Inr [])"
  by code_simp

subsection \<open>Branch comparison without a merge base\<close>

text \<open>
  C8, as stated, quantifies over every collaborator whose merge base is empty. It fails
  for one whose fetch raises: \<open>compare\<close> calls \<open>fetch\<close> first and lets its
  error through.
\<close>

theorem C8_fetch_failure_propagates:
  "git_current_branch no_remote_git = Inr ''feature''
   \<and> git_merge_base no_remote_git ''feature'' ''origin/main'' = Inr []
   \<and> compare no_remote_git ''origin/main''
       = Inl (GitError ''fetch'' ''fatal: origin does not appear to be a git repository'' 128)"
  by (simp add: no_remote_git_def compare_def)

text \<open>
  C8, amended. When the fetch and the query for the current branch succeed and the merge
  base of the current and the target branch is empty, \<open>compare\<close> returns a report
  with exactly one suggestion, the two branch names, and every other field at its default:
  not behind, zero commits behind, and no current-only, target-only or parallel files.
\<close>

theorem C8_no_merge_base_reported:
  assumes "git_fetch git = Inr ()"
    and "git_current_branch git = Inr cur"
    and "git_merge_base git cur target = Inr []"
  shows "compare git target =
     Inr \<lparr>current_branch = cur, target_branch = target, is_behind = False, commits_behind = 0,
          current_only = [], target_only = [], parallel_migrations = [],
          suggestions = [''Could not determine merge base. Ensure both branches share a common ancestor.'']\<rparr>"
  using assms by (simp add: compare_def ComparisonReport_init_def)

theorem C8_no_merge_base_reported_witness:
  "git_fetch unrelated_git = Inr ()
   \<and> git_current_branch unrelated_git = Inr ''feature''
   \<and> git_merge_base unrelated_git ''feature'' ''origin/main'' = Inr []
   \<and> compare unrelated_git ''origin/main'' =
     Inr \<lparr>current_branch = ''feature'', target_branch = ''origin/main'', is_behind = False,
          commits_behind = 0, current_only = [], target_only = [], parallel_migrations = [],
          suggestions = [''Could not determine merge base. Ensure both branches share a common ancestor.'']\<rparr>"
proof -
  have a: "git_fetch unrelated_git = Inr ()"
    and b: "git_current_branch unrelated_git = Inr ''feature''"
    and c: "git_merge_base unrelated_git ''feature'' ''origin/main'' = Inr []"
    by (simp_all add: unrelated_git_def)
  from a b c C8_no_merge_base_reported [OF a b c] show ?thesis by simp
qed

subsection \<open>The NOT NULL rule on an Alembic column with a default\<close>

lemma alembic_window: "window (sql_content alembic_with_default) 0 = sql_content alembic_with_default"
  by (simp add: window_def alembic_with_default_def)

lemma alembic_calls: "finditer ALEMBIC_ADD_COL_RE (sql_content alembic_with_default) = [(0, 13)]"
  by code_simp

lemma alembic_no_django: "finditer DJANGO_ADD_FIELD_RE (sql_content alembic_with_default) = []"
  by code_simp

lemma alembic_no_sql: "finditer ADD_COL_NOT_NULL_SQL_RE (sql_content alembic_with_default) = []"
  by code_simp

lemma alembic_nullable_false: "search ALEMBIC_NULLABLE_FALSE_RE (sql_content alembic_with_default)"
  by code_simp

lemma alembic_has_default: "search DJANGO_DEFAULT_RE (sql_content alembic_with_default)"
  by code_simp

lemma alembic_line: "line_of (sql_content alembic_with_default) 0 = 1"
  by (simp add: line_of_def)

lemma django_window: "window (sql_content django_with_default) 0 = sql_content django_with_default"
  by (simp add: window_def django_with_default_def)

lemma django_calls: "finditer DJANGO_ADD_FIELD_RE (sql_content django_with_default) = [(0, 8)]"
  by code_simp

lemma django_no_alembic: "finditer ALEMBIC_ADD_COL_RE (sql_content django_with_default) = []"
  by code_simp

lemma django_no_sql: "finditer ADD_COL_NOT_NULL_SQL_RE (sql_content django_with_default) = []"
  by code_simp

lemma django_has_default: "search DJANGO_DEFAULT_RE (sql_content django_with_default)"
  by code_simp

text \<open>
  C2. The claim is that a structured add-column call is flagged only when the signal
  that forbids null and the absence of a default occur together in the 300 characters
  after the call, so that an \<open>op.add_column\<close> call with \<open>nullable=False\<close> and a
  default yields no violation. The Alembic check never looks for a default: on the call
  below, whose window holds both \<open>nullable=False\<close> and \<open>default=\<close>, \<open>evaluate\<close>
  returns one violation. The Django check does look: the same column as an \<open>AddField\<close>
  operation yields none.
\<close>

theorem C2_alembic_default_ignored:
  "finditer ALEMBIC_ADD_COL_RE (sql_content alembic_with_default) = [(0, 13)]
   \<and> search ALEMBIC_NULLABLE_FALSE_RE (window (sql_content alembic_with_default) 0)
   \<and> search DJANGO_DEFAULT_RE (window (sql_content alembic_with_default) 0)
   \<and> evaluate alembic_with_default
       = [make_violation alembic_with_default 1 ''Alembic op.add_column() with nullable=False'']
   \<and> evaluate django_with_default = []"
proof -
  have "evaluate alembic_with_default
       = [make_violation alembic_with_default 1 ''Alembic op.add_column() with nullable=False'']"
    by (simp add: evaluate_def check_django_add_field_def check_alembic_add_column_def
          alembic_calls alembic_no_django alembic_no_sql alembic_window alembic_nullable_false
          alembic_line)
  moreover have "evaluate django_with_default = []"
    by (simp add: evaluate_def check_django_add_field_def check_alembic_add_column_def
          django_calls django_no_alembic django_no_sql django_window django_has_default)
  ultimately show ?thesis
    by (simp add: alembic_calls alembic_window alembic_nullable_false alembic_has_default)
qed

subsection \<open>Constructed graphs are well-formed\<close>

lemma adj_dd_add: "adj (dd_add k v d) k' = (if k' = k then insert v (adj d k) else adj d k')"
  by (simp add: dd_add_def adj_update)

lemma graph_ok_init: "graph_ok MigrationGraph_init"
  by (simp add: graph_ok_def MigrationGraph_init_def adj_def)

lemma graph_ok_add_node: "graph_ok g \<Longrightarrow> graph_ok (add_node g n)"
  by (auto simp: graph_ok_def add_node_def)

lemma graph_ok_add_edge:
  assumes "graph_ok g"
  shows "graph_ok (add_edge g n d)"
proof -
  from assms have fin: "finite (nodes g)"
    and sym: "\<And>a b. (b \<in> adj (forward g) a) = (a \<in> adj (reverse g) b)"
    and sub: "\<And>a. adj (forward g) a \<subseteq> nodes g"
    and src: "\<And>a. adj (forward g) a \<noteq> {} \<Longrightarrow> a \<in> nodes g"
    by (auto simp: graph_ok_def)
  show ?thesis
    unfolding graph_ok_def add_edge_def
  proof (intro conjI allI impI)
    show "finite (nodes (g\<lparr>nodes := insert d (insert n (nodes g)),
            forward := dd_add n d (forward g), reverse := dd_add d n (reverse g)\<rparr>))"
      using fin by simp
  next
    fix a b
    show "(b \<in> adj (forward (g\<lparr>nodes := insert d (insert n (nodes g)),
            forward := dd_add n d (forward g), reverse := dd_add d n (reverse g)\<rparr>)) a)
        = (a \<in> adj (reverse (g\<lparr>nodes := insert d (insert n (nodes g)),
            forward := dd_add n d (forward g), reverse := dd_add d n (reverse g)\<rparr>)) b)"
      using sym [of b a] sym [of b n] sym [of d a] by (auto simp: adj_dd_add)
  next
    fix a
    show "adj (forward (g\<lparr>nodes := insert d (insert n (nodes g)),
            forward := dd_add n d (forward g), reverse := dd_add d n (reverse g)\<rparr>)) a
        \<subseteq> nodes (g\<lparr>nodes := insert d (insert n (nodes g)),
            forward := dd_add n d (forward g), reverse := dd_add d n (reverse g)\<rparr>)"
      using sub [of a] sub [of n] by (auto simp: adj_dd_add)
  next
    fix a
    assume "adj (forward (g\<lparr>nodes := insert d (insert n (nodes g)),
            forward := dd_add n d (forward g), reverse := dd_add d n (reverse g)\<rparr>)) a \<noteq> {}"
    then show "a \<in> nodes (g\<lparr>nodes := insert d (insert n (nodes g)),
            forward := dd_add n d (forward g), reverse := dd_add d n (reverse g)\<rparr>)"
      using src [of a] by (auto simp: adj_dd_add split: if_splits)
  qed
qed

lemma constructed_graph_ok: "constructed g \<Longrightarrow> graph_ok g"
  by (induction rule: constructed.induct)
     (simp_all add: graph_ok_init graph_ok_add_node graph_ok_add_edge)

lemma graph_ok_finite_adj: "graph_ok g \<Longrightarrow> finite (adj (forward g) n)"
  by (meson finite_subset graph_ok_def)

lemma graph_ok_rev_subset: "graph_ok g \<Longrightarrow> adj (reverse g) d \<subseteq> nodes g"
  unfolding graph_ok_def by (metis empty_iff subsetI)

lemma graph_ok_finite_rev: "graph_ok g \<Longrightarrow> finite (adj (reverse g) d)"
  using graph_ok_rev_subset [of g d] by (meson finite_subset graph_ok_def)

subsection \<open>Kahn's loop on a well-formed graph\<close>

lemma relax_dependents_result:
  assumes "distinct ds" and "set ds \<subseteq> dom (map_of deg)"
  shows "\<exists>deg'. relax_dependents deg q ds = Inr (deg', q @ filter (\<lambda>n. map_of deg n = Some 1) ds)
           \<and> (\<forall>n. map_of deg' n =
                 (if n \<in> set ds then map_option (\<lambda>k. k - 1) (map_of deg n) else map_of deg n))"
  using assms
proof (induction ds arbitrary: deg q)
  case Nil
  then show ?case by simp
next
  case (Cons x ds)
  from Cons.prems obtain k where k: "map_of deg x = Some k" by auto
  let ?deg = "AList.update x (k - 1) deg"
  let ?q = "if k - 1 = 0 then q @ [x] else q"
  have m: "map_of ?deg = (map_of deg)(x \<mapsto> k - 1)" by (simp add: update_conv')
  from Cons.prems have d: "distinct ds" and xn: "x \<notin> set ds"
    and sub: "set ds \<subseteq> dom (map_of ?deg)"
    by (auto simp: m)
  from Cons.IH [OF d sub, of ?q] obtain deg' where
    r: "relax_dependents ?deg ?q ds = Inr (deg', ?q @ filter (\<lambda>n. map_of ?deg n = Some 1) ds)"
    and v: "\<forall>n. map_of deg' n =
        (if n \<in> set ds then map_option (\<lambda>k. k - 1) (map_of ?deg n) else map_of ?deg n)"
    by blast
  have f: "filter (\<lambda>n. map_of ?deg n = Some 1) ds = filter (\<lambda>n. map_of deg n = Some 1) ds"
    using xn by (intro filter_cong) (auto simp: m)
  have q: "?q @ filter (\<lambda>n. map_of deg n = Some 1) ds
      = q @ filter (\<lambda>n. map_of deg n = Some 1) (x # ds)"
    using k by auto
  have "relax_dependents deg q (x # ds) = Inr (deg', q @ filter (\<lambda>n. map_of deg n = Some 1) (x # ds))"
    using r k unfolding f q [symmetric] by simp
  moreover have "\<forall>n. map_of deg' n =
        (if n \<in> set (x # ds) then map_option (\<lambda>k. k - 1) (map_of deg n) else map_of deg n)"
    using v xn k by (auto simp: m)
  ultimately show ?case by blast
qed

lemma filter_sorted_list_of_set:
  assumes "finite A"
  shows "filter P (sorted_list_of_set A) = sorted_list_of_set {x \<in> A. P x}"
proof (rule sorted_distinct_set_unique)
  show "sorted (filter P (sorted_list_of_set A))"
    by (simp add: sorted_wrt_filter)
  show "distinct (filter P (sorted_list_of_set A))" by simp
  show "sorted (sorted_list_of_set {x \<in> A. P x})" by simp
  show "distinct (sorted_list_of_set {x \<in> A. P x})" by simp
  show "set (filter P (sorted_list_of_set A)) = set (sorted_list_of_set {x \<in> A. P x})"
    using assms by auto
qed

lemma remaining_zero: "graph_ok g \<Longrightarrow> (remaining g E n = 0) = (adj (forward g) n \<subseteq> E)"
  using graph_ok_finite_adj [of g n] by (auto simp: remaining_def)

lemma remaining_insert:
  assumes "graph_ok g" and "x \<notin> E"
  shows "int (remaining g (insert x E) n)
         = (if x \<in> adj (forward g) n then int (remaining g E n) - 1 else int (remaining g E n))"
proof (cases "x \<in> adj (forward g) n")
  case True
  have fin: "finite (adj (forward g) n - E)"
    using graph_ok_finite_adj [OF assms(1), of n] by simp
  have eq: "adj (forward g) n - insert x E = (adj (forward g) n - E) - {x}" by auto
  from True assms(2) have "x \<in> adj (forward g) n - E" by simp
  with fin have "card ((adj (forward g) n - E) - {x}) = card (adj (forward g) n - E) - 1"
    and "card (adj (forward g) n - E) > 0"
    by (auto simp: card_gt_0_iff)
  with True show ?thesis by (simp add: remaining_def eq)
next
  case False
  then have "adj (forward g) n - insert x E = adj (forward g) n - E" by auto
  with False show ?thesis by (simp add: remaining_def)
qed

lemma newly_ready_eq:
  assumes ok: "graph_ok g" and x: "x \<notin> E"
    and deg: "\<forall>n \<in> nodes g. map_of deg n = Some (int (remaining g E n))"
  shows "filter (\<lambda>n. map_of deg n = Some 1) (sorted_list_of_set (adj (reverse g) x))
         = newly_ready g E x"
proof -
  have "{n \<in> adj (reverse g) x. map_of deg n = Some 1}
        = {n \<in> nodes g. remaining g E n \<noteq> 0 \<and> remaining g (insert x E) n = 0}"
    (is "?L = ?R")
  proof (intro set_eqI iffI)
    fix n assume "n \<in> ?L"
    then have nr: "n \<in> adj (reverse g) x" and d1: "map_of deg n = Some 1" by auto
    from nr ok have nN: "n \<in> nodes g" using graph_ok_rev_subset by blast
    from nr ok have xf: "x \<in> adj (forward g) n" by (simp add: graph_ok_def)
    from deg nN d1 have r1: "remaining g E n = 1" by simp
    with remaining_insert [OF ok x, of n] xf have "remaining g (insert x E) n = 0" by simp
    with r1 nN show "n \<in> ?R" by simp
  next
    fix n assume "n \<in> ?R"
    then have nN: "n \<in> nodes g" and r0: "remaining g E n \<noteq> 0"
      and r1: "remaining g (insert x E) n = 0" by auto
    have xf: "x \<in> adj (forward g) n"
    proof (rule ccontr)
      assume "x \<notin> adj (forward g) n"
      with remaining_insert [OF ok x, of n] r0 r1 show False by simp
    qed
    with remaining_insert [OF ok x, of n] r1 have "int (remaining g E n) = 1" by simp
    with deg nN have "map_of deg n = Some 1" by simp
    moreover from xf ok have "n \<in> adj (reverse g) x" by (simp add: graph_ok_def)
    ultimately show "n \<in> ?L" by simp
  qed
  then show ?thesis
    by (simp add: newly_ready_def filter_sorted_list_of_set graph_ok_finite_rev [OF ok])
qed

lemma kahn_step:
  assumes ok: "graph_ok g" and inv: "kahn_inv g deg (x # queue) result"
  shows "\<exists>deg'. relax_dependents deg queue (sorted_list_of_set (adj (reverse g) x))
                  = Inr (deg', queue @ newly_ready g (set result) x)
              \<and> kahn_inv g deg' (queue @ newly_ready g (set result) x) (result @ [x])"
proof -
  let ?N = "nodes g" and ?E = "set result"
  let ?ds = "sorted_list_of_set (adj (reverse g) x)"
  let ?new = "newly_ready g ?E x"
  from inv have dist: "distinct (result @ x # queue)"
    and sub: "set (result @ x # queue) \<subseteq> ?N"
    and deg: "\<forall>n \<in> ?N. map_of deg n = Some (int (remaining g ?E n))"
    and rdy: "\<forall>n \<in> ?N. (n \<in> set (result @ x # queue)) = (adj (forward g) n \<subseteq> ?E)"
    and ord: "\<forall>i < length result. adj (forward g) (result ! i) \<subseteq> set (take i result)"
    by (auto simp: kahn_inv_def)
  from dist have xE: "x \<notin> ?E" by simp
  from sub have xN: "x \<in> ?N" by simp
  have finR: "finite (adj (reverse g) x)" by (rule graph_ok_finite_rev [OF ok])
  have dsN: "set ?ds \<subseteq> ?N" using finR graph_ok_rev_subset [OF ok, of x] by simp
  have dsdom: "set ?ds \<subseteq> dom (map_of deg)" using dsN deg by auto
  from relax_dependents_result [OF _ dsdom, of queue] obtain deg' where
    r: "relax_dependents deg queue ?ds = Inr (deg', queue @ filter (\<lambda>n. map_of deg n = Some 1) ?ds)"
    and v: "\<forall>n. map_of deg' n =
        (if n \<in> set ?ds then map_option (\<lambda>k. k - 1) (map_of deg n) else map_of deg n)"
    by auto
  have new: "filter (\<lambda>n. map_of deg n = Some 1) ?ds = ?new"
    by (rule newly_ready_eq [OF ok xE deg])
  have newset: "set ?new = {n \<in> ?N. remaining g ?E n \<noteq> 0 \<and> remaining g (insert x ?E) n = 0}"
    using graph_ok_def ok by (simp add: newly_ready_def)
  have k3: "\<forall>n \<in> ?N. map_of deg' n = Some (int (remaining g (set (result @ [x])) n))"
  proof
    fix n assume nN: "n \<in> ?N"
    have "(n \<in> set ?ds) = (x \<in> adj (forward g) n)"
      using finR ok by (simp add: graph_ok_def)
    with v deg nN remaining_insert [OF ok xE, of n]
    show "map_of deg' n = Some (int (remaining g (set (result @ [x])) n))" by simp
  qed
  have k4: "\<forall>n \<in> ?N. (n \<in> set ((result @ [x]) @ queue @ ?new))
                     = (adj (forward g) n \<subseteq> set (result @ [x]))"
  proof
    fix n assume nN: "n \<in> ?N"
    show "(n \<in> set ((result @ [x]) @ queue @ ?new)) = (adj (forward g) n \<subseteq> set (result @ [x]))"
      using rdy nN newset remaining_zero [OF ok, of ?E n] remaining_zero [OF ok, of "insert x ?E" n]
      by auto
  qed
  have k1: "distinct ((result @ [x]) @ queue @ ?new)"
  proof -
    have "set ?new \<inter> set (result @ x # queue) = {}"
      using rdy newset remaining_zero [OF ok, of ?E] by auto
    moreover have "distinct ?new" by (simp add: newly_ready_def)
    ultimately show ?thesis using dist by auto
  qed
  have k2: "set ((result @ [x]) @ queue @ ?new) \<subseteq> ?N"
    using sub newset by auto
  have k5: "\<forall>i < length (result @ [x]).
              adj (forward g) ((result @ [x]) ! i) \<subseteq> set (take i (result @ [x]))"
  proof (intro allI impI)
    fix i assume "i < length (result @ [x])"
    then consider "i < length result" | "i = length result" by fastforce
    then show "adj (forward g) ((result @ [x]) ! i) \<subseteq> set (take i (result @ [x]))"
    proof cases
      case 1
      with ord show ?thesis by (simp add: nth_append)
    next
      case 2
      from rdy xN have "adj (forward g) x \<subseteq> set result" by auto
      with 2 show ?thesis by simp
    qed
  qed
  from k1 k2 k3 k4 k5 have "kahn_inv g deg' (queue @ ?new) (result @ [x])"
    unfolding kahn_inv_def by blast
  with r new show ?thesis by auto
qed

lemma kahn_loop_result:
  assumes "graph_ok g" and "kahn_inv g deg queue result"
    and "card (nodes g) \<le> length result + k"
  shows "\<exists>res deg'. kahn_loop (reverse g) deg queue result = Inr res
           \<and> kahn_inv g deg' [] res \<and> res = fifo_loop k g queue result"
  using assms
proof (induction "reverse g" deg queue result arbitrary: k rule: kahn_loop.induct)
  case (1 deg result)
  have "fifo_loop k g [] result = result" by (cases k) simp_all
  with 1 show ?case by auto
next
  case (2 deg x queue result)
  from kahn_step [OF "2.prems"(1,2)] obtain deg' where
    r: "relax_dependents deg queue (sorted_list_of_set (adj (reverse g) x))
          = Inr (deg', queue @ newly_ready g (set result) x)"
    and inv': "kahn_inv g deg' (queue @ newly_ready g (set result) x) (result @ [x])"
    by blast
  from "2.prems"(2) have "distinct (result @ x # queue)" and "set (result @ x # queue) \<subseteq> nodes g"
    by (auto simp: kahn_inv_def)
  moreover from "2.prems"(1) have "finite (nodes g)" by (simp add: graph_ok_def)
  ultimately have "length (result @ x # queue) \<le> card (nodes g)"
    by (metis card_mono distinct_card)
  with "2.prems"(3) obtain k' where k: "k = Suc k'" and k': "card (nodes g) \<le> length (result @ [x]) + k'"
    by (cases k) auto
  from "2.hyps" [OF r refl "2.prems"(1) inv' k'] obtain res deg'' where
    "kahn_loop (reverse g) deg' (queue @ newly_ready g (set result) x) (result @ [x]) = Inr res"
    "kahn_inv g deg'' [] res"
    "res = fifo_loop k' g (queue @ newly_ready g (set result) x) (result @ [x])"
    by blast
  with r k show ?case by auto
qed

lemma kahn_inv_init:
  assumes ok: "graph_ok g"
  shows "kahn_inv g (in_degree_init g)
           (sorted_list_of_set {n \<in> nodes g. map_of (in_degree_init g) n = Some 0}) []"
proof -
  from ok have fin: "finite (nodes g)" by (simp add: graph_ok_def)
  have m: "map_of (in_degree_init g) n = Some (int (remaining g {} n))" if "n \<in> nodes g" for n
    using that fin by (simp add: in_degree_init_def map_of_map_restrict remaining_def)
  from fin have finq: "finite {n \<in> nodes g. map_of (in_degree_init g) n = Some 0}" by simp
  show ?thesis
    unfolding kahn_inv_def
    using m remaining_zero [OF ok, of "{}"] finq by auto
qed

lemma init_queue_eq:
  assumes ok: "graph_ok g"
  shows "{n \<in> nodes g. map_of (in_degree_init g) n = Some 0} = {n \<in> nodes g. remaining g {} n = 0}"
proof -
  from ok have fin: "finite (nodes g)" by (simp add: graph_ok_def)
  have "map_of (in_degree_init g) n = Some (int (remaining g {} n))" if "n \<in> nodes g" for n
    using that fin by (simp add: in_degree_init_def map_of_map_restrict remaining_def)
  then show ?thesis by auto
qed

lemma topological_sort_result:
  assumes ok: "graph_ok g"
  shows "kahn_final g (fifo_order g)
         \<and> topological_sort g =
             (if length (fifo_order g) \<noteq> card (nodes g) then Inl (ValueError cycle_message)
              else Inr (fifo_order g))"
proof -
  let ?q = "sorted_list_of_set {n \<in> nodes g. map_of (in_degree_init g) n = Some 0}"
  from kahn_loop_result [OF ok kahn_inv_init [OF ok], of "card (nodes g)"]
  obtain res deg' where
    r: "kahn_loop (reverse g) (in_degree_init g) ?q [] = Inr res"
    and inv: "kahn_inv g deg' [] res"
    and f: "res = fifo_loop (card (nodes g)) g ?q []"
    by auto
  from f have res: "res = fifo_order g" by (simp add: fifo_order_def init_queue_eq [OF ok])
  from inv have "kahn_final g res" by (simp add: kahn_inv_def kahn_final_def)
  with r res show ?thesis by (simp add: topological_sort_def)
qed

lemma edges_subset: "graph_ok g \<Longrightarrow> edges g \<subseteq> nodes g \<times> nodes g"
  unfolding graph_ok_def edges_def by blast

lemma kahn_final_edge:
  assumes fin: "kahn_final g res" and e: "(n, d) \<in> edges g" and i: "i < length res" "res ! i = n"
  shows "\<exists>j < i. res ! j = d"
proof -
  from fin i have "adj (forward g) n \<subseteq> set (take i res)" by (auto simp: kahn_final_def)
  with e have "d \<in> set (take i res)" by (auto simp: edges_def)
  then obtain j where "j < length (take i res)" "take i res ! j = d"
    by (auto simp: in_set_conv_nth)
  with i show ?thesis by auto
qed

lemma kahn_final_path:
  assumes fin: "kahn_final g res" and p: "(n, d) \<in> (edges g)\<^sup>+"
  shows "i < length res \<Longrightarrow> res ! i = n \<Longrightarrow> \<exists>j < i. res ! j = d"
  using p
proof (induction arbitrary: i rule: trancl_induct)
  case (base y)
  then show ?case using kahn_final_edge [OF fin] by blast
next
  case (step y z)
  from step.IH [OF step.prems] obtain j where j: "j < i" "res ! j = y" by blast
  with step.prems have "j < length res" by simp
  from kahn_final_edge [OF fin step.hyps(2) this j(2)] obtain j' where "j' < j" "res ! j' = z"
    by blast
  with j(1) show ?case by (intro exI [of _ j']) simp
qed

lemma kahn_final_no_cycle_node:
  assumes fin: "kahn_final g res" and c: "(x, x) \<in> (edges g)\<^sup>+"
  shows "x \<notin> set res"
proof
  assume "x \<in> set res"
  then obtain i where i: "i < length res" "res ! i = x" by (auto simp: in_set_conv_nth)
  from kahn_final_path [OF fin c i] obtain j where j: "j < i" "res ! j = x" by blast
  from fin have "distinct res" by (simp add: kahn_final_def)
  moreover from i j have "j < length res" "res ! i = res ! j" by simp_all
  ultimately have "i = j" using i(1) by (simp add: nth_eq_iff_index_eq)
  with j show False by simp
qed

lemma topological_sort_cyclic:
  assumes ok: "graph_ok g" and cyc: "\<not> acyclic (edges g)"
  shows "topological_sort g = Inl (ValueError cycle_message)
         \<and> length (fifo_order g) < card (nodes g)"
proof -
  from topological_sort_result [OF ok] have fin: "kahn_final g (fifo_order g)"
    and ts: "topological_sort g =
             (if length (fifo_order g) \<noteq> card (nodes g) then Inl (ValueError cycle_message)
              else Inr (fifo_order g))"
    by blast+
  from cyc obtain x where x: "(x, x) \<in> (edges g)\<^sup>+" by (auto simp: acyclic_def)
  then have "x \<in> nodes g" using edges_subset [OF ok]
    by (metis (no_types, lifting) mem_Sigma_iff subsetD tranclD)
  moreover from kahn_final_no_cycle_node [OF fin x] have "x \<notin> set (fifo_order g)" .
  moreover from fin have "set (fifo_order g) \<subseteq> nodes g" and d: "distinct (fifo_order g)"
    by (auto simp: kahn_final_def)
  ultimately have "set (fifo_order g) \<subset> nodes g" by blast
  moreover from ok have "finite (nodes g)" by (simp add: graph_ok_def)
  ultimately have "card (set (fifo_order g)) < card (nodes g)" by (rule psubset_card_mono [rotated])
  with d have "length (fifo_order g) < card (nodes g)" by (simp add: distinct_card)
  with ts show ?thesis by simp
qed

lemma topological_sort_acyclic:
  assumes ok: "graph_ok g" and acyc: "acyclic (edges g)"
  shows "topological_sort g = Inr (fifo_order g)
         \<and> distinct (fifo_order g) \<and> set (fifo_order g) = nodes g
         \<and> (\<forall>i < length (fifo_order g).
               adj (forward g) (fifo_order g ! i) \<subseteq> set (take i (fifo_order g)))"
proof -
  let ?res = "fifo_order g"
  from topological_sort_result [OF ok] have fin: "kahn_final g ?res"
    and ts: "topological_sort g =
             (if length ?res \<noteq> card (nodes g) then Inl (ValueError cycle_message) else Inr ?res)"
    by blast+
  from ok have finN: "finite (nodes g)" by (simp add: graph_ok_def)
  then have "finite (edges g)"
    using edges_subset [OF ok] by (meson finite_SigmaI finite_subset)
  with acyc have wf: "wf ((edges g)\<inverse>)" by (simp add: finite_acyclic_wf_converse)
  have all: "n \<in> nodes g \<longrightarrow> n \<in> set ?res" for n
  proof (induction n rule: wf_induct_rule [OF wf])
    case (1 n)
    show ?case
    proof
      assume nN: "n \<in> nodes g"
      have "adj (forward g) n \<subseteq> set ?res"
      proof
        fix d assume d: "d \<in> adj (forward g) n"
        then have "(d, n) \<in> (edges g)\<inverse>" by (simp add: edges_def)
        moreover from d ok have "d \<in> nodes g" by (auto simp: graph_ok_def)
        ultimately show "d \<in> set ?res" using 1 by blast
      qed
      with fin nN show "n \<in> set ?res" by (simp add: kahn_final_def)
    qed
  qed
  with fin have s: "set ?res = nodes g" by (auto simp: kahn_final_def)
  from fin have d: "distinct ?res" by (simp add: kahn_final_def)
  from s d have "length ?res = card (nodes g)" by (metis distinct_card)
  with ts s d fin show ?thesis by (simp add: kahn_final_def)
qed

lemma topological_sort_error_iff:
  assumes ok: "graph_ok g"
  shows "(\<exists>e. topological_sort g = Inl e) = (length (fifo_order g) < card (nodes g))"
proof -
  from topological_sort_result [OF ok] have fin: "kahn_final g (fifo_order g)"
    and ts: "topological_sort g =
             (if length (fifo_order g) \<noteq> card (nodes g) then Inl (ValueError cycle_message)
              else Inr (fifo_order g))"
    by blast+
  from fin ok have "length (fifo_order g) \<le> card (nodes g)"
    unfolding kahn_final_def graph_ok_def by (metis card_mono distinct_card)
  with ts show ?thesis by auto
qed

lemma adj_Nil: "adj [] k = {}"
  by (simp add: adj_def)

lemma no_adj_iff: "no_adj d n = (adj d n = {})"
  by (simp add: no_adj_def adj_def split: option.splits)

lemma index_nth:
  "distinct xs \<Longrightarrow> i < length xs \<Longrightarrow> length (takeWhile (\<lambda>y. y \<noteq> xs ! i) xs) = i"
proof (induction xs arbitrary: i)
  case Nil
  then show ?case by simp
next
  case (Cons x xs)
  then show ?case by (cases i) auto
qed

lemma chain_acyclic:
  assumes "distinct xs"
  shows "acyclic (set (zip (tl xs) xs))"
proof -
  let ?idx = "\<lambda>x. length (takeWhile (\<lambda>y. y \<noteq> x) xs)"
  have "set (zip (tl xs) xs) \<subseteq> (measure ?idx)\<inverse>"
  proof
    fix p assume "p \<in> set (zip (tl xs) xs)"
    then obtain i where i: "i < length (tl xs)" "p = (tl xs ! i, xs ! i)"
      by (auto simp: set_zip)
    then have si: "Suc i < length xs" and p: "p = (xs ! Suc i, xs ! i)"
      by (auto simp: nth_tl)
    from index_nth [OF assms si] index_nth [OF assms, of i] si
    show "p \<in> (measure ?idx)\<inverse>" by (simp add: p)
  qed
  moreover have "acyclic ((measure ?idx)\<inverse>)"
    by (simp add: acyclic_converse wf_acyclic)
  ultimately show ?thesis by (rule acyclic_subset [rotated])
qed

lemma chain_sources:
  assumes "xs \<noteq> []" and "distinct xs"
  shows "{n \<in> set xs. {d. (n, d) \<in> set (zip (tl xs) xs)} = {}} = {hd xs}"
proof -
  have "set (map fst (zip (tl xs) xs)) = set (tl xs)"
    by (simp add: map_fst_zip_take)
  then have "(\<exists>d. (n, d) \<in> set (zip (tl xs) xs)) = (n \<in> set (tl xs))" for n
    by force
  then have "{n \<in> set xs. {d. (n, d) \<in> set (zip (tl xs) xs)} = {}} = set xs - set (tl xs)"
    by blast
  also from assms have "\<dots> = {hd xs}" by (cases xs) auto
  finally show ?thesis .
qed

lemma chain_sinks:
  assumes "xs \<noteq> []" and "distinct xs"
  shows "{d \<in> set xs. {n. (n, d) \<in> set (zip (tl xs) xs)} = {}} = {last xs}"
proof -
  have "map snd (zip (tl xs) xs) = butlast xs"
    by (simp add: map_snd_zip_take butlast_conv_take min_def)
  then have "set (map snd (zip (tl xs) xs)) = set (butlast xs)" by simp
  then have "(\<exists>n. (n, d) \<in> set (zip (tl xs) xs)) = (d \<in> set (butlast xs))" for d
    by force
  then have "{d \<in> set xs. {n. (n, d) \<in> set (zip (tl xs) xs)} = {}} = set xs - set (butlast xs)"
    by blast
  also from assms have "\<dots> = {last xs}"
    by (induction xs rule: rev_nonempty_induct) auto
  finally show ?thesis .
qed

lemma chain_heads_roots:
  assumes ok: "graph_ok g" and ch: "is_chain g xs"
  shows "find_heads g = [last xs]" and "find_roots g = [hd xs]"
proof -
  from ch have ne: "xs \<noteq> []" and d: "distinct xs" and n: "nodes g = set xs"
    and e: "edges g = set (zip (tl xs) xs)"
    by (auto simp: is_chain_def)
  have f: "adj (forward g) a = {b. (a, b) \<in> set (zip (tl xs) xs)}" for a
    using e by (auto simp: edges_def)
  have r: "adj (reverse g) b = {a. (a, b) \<in> set (zip (tl xs) xs)}" for b
    using e ok by (auto simp: edges_def graph_ok_def)
  have "{n \<in> nodes g. no_adj (reverse g) n} = {last xs}"
    unfolding no_adj_iff n r by (rule chain_sinks [OF ne d])
  then show "find_heads g = [last xs]" by (simp add: find_heads_def)
  have "{n \<in> nodes g. no_adj (forward g) n} = {hd xs}"
    unfolding no_adj_iff n f by (rule chain_sources [OF ne d])
  then show "find_roots g = [hd xs]" by (simp add: find_roots_def)
qed

text \<open>
  C7. In a graph that is one linear chain of N nodes, \<open>find_heads\<close> and
  \<open>find_roots\<close> each return exactly one node (the last and the first of the chain),
  and \<open>topological_sort\<close> returns all N nodes, each after all of its
  dependencies.
\<close>

theorem C7_linear_chain:
  assumes "constructed g" and "is_chain g xs"
  shows "find_heads g = [last xs] \<and> find_roots g = [hd xs]
         \<and> (\<exists>order. topological_sort g = Inr order
               \<and> length order = length xs \<and> set order = set xs
               \<and> (\<forall>i < length order. adj (forward g) (order ! i) \<subseteq> set (take i order)))"
proof -
  from assms(1) have ok: "graph_ok g" by (rule constructed_graph_ok)
  from assms(2) have d: "distinct xs" and n: "nodes g = set xs"
    and e: "edges g = set (zip (tl xs) xs)"
    by (auto simp: is_chain_def)
  have "acyclic (edges g)" unfolding e by (rule chain_acyclic [OF d])
  from topological_sort_acyclic [OF ok this] n d
  have "topological_sort g = Inr (fifo_order g)"
    "length (fifo_order g) = length xs" "set (fifo_order g) = set xs"
    "\<forall>i < length (fifo_order g). adj (forward g) (fifo_order g ! i) \<subseteq> set (take i (fifo_order g))"
    by (metis distinct_card)+
  with chain_heads_roots [OF ok assms(2)] show ?thesis by blast
qed

lemma chain_graph_constructed: "constructed chain_graph"
  unfolding chain_graph_def by (intro constructed.intros)

lemma chain_graph_is_chain: "is_chain chain_graph [''a'', ''b'', ''c'']"
  unfolding is_chain_def chain_graph_def edges_def
  by (auto simp: add_edge_def MigrationGraph_init_def adj_dd_add adj_Nil split: if_splits)

theorem C7_linear_chain_witness:
  "constructed chain_graph \<and> is_chain chain_graph [''a'', ''b'', ''c'']
   \<and> find_heads chain_graph = [''c''] \<and> find_roots chain_graph = [''a'']
   \<and> topological_sort chain_graph = Inr [''a'', ''b'', ''c'']"
proof -
  have t: "topological_sort chain_graph = Inr [''a'', ''b'', ''c'']" by code_simp
  from C7_linear_chain [OF chain_graph_constructed chain_graph_is_chain] t
    chain_graph_constructed chain_graph_is_chain
  show ?thesis by simp
qed

text \<open>
  C3, as stated, fails: the queue is a plain first-in-first-out queue. In the graph with
  the roots \<open>b\<close> and \<open>c\<close> and the node \<open>a\<close> that depends on \<open>b\<close>,
  emitting \<open>b\<close> makes \<open>a\<close> ready, and \<open>a\<close> is smaller than the waiting
  \<open>c\<close>; the code emits \<open>c\<close> first.
\<close>

theorem C3_not_priority_order:
  "constructed fork_graph \<and> acyclic (edges fork_graph)
   \<and> topological_sort fork_graph = Inr [''b'', ''c'', ''a'']
   \<and> priority_order fork_graph = [''b'', ''a'', ''c'']"
proof -
  have c: "constructed fork_graph"
    unfolding fork_graph_def by (intro constructed.intros)
  have t: "topological_sort fork_graph = Inr [''b'', ''c'', ''a'']" by code_simp
  have p: "priority_order fork_graph = [''b'', ''a'', ''c'']" by code_simp
  have "acyclic (edges fork_graph)"
    using topological_sort_cyclic [OF constructed_graph_ok [OF c]] t by auto
  with c t p show ?thesis by simp
qed

text \<open>
  C3, amended. On every acyclic graph \<open>topological_sort\<close> returns the order of
  Kahn's algorithm with a first-in-first-out queue: the queue starts with the nodes of
  in-degree zero in sorted order; the front node is emitted, and the nodes whose remaining
  in-degree (the count of their not yet emitted forward dependencies) becomes zero by
  that emission are appended to the back of the queue in sorted order.
\<close>

theorem C3_fifo_order:
  assumes "constructed g" and "acyclic (edges g)"
  shows "topological_sort g = Inr (fifo_order g)"
  using topological_sort_acyclic [OF constructed_graph_ok [OF assms(1)] assms(2)] by simp

theorem C3_fifo_order_witness:
  "constructed fork_graph \<and> acyclic (edges fork_graph)
   \<and> topological_sort fork_graph = Inr (fifo_order fork_graph)
   \<and> fifo_order fork_graph = [''b'', ''c'', ''a'']"
proof -
  have c: "constructed fork_graph"
    unfolding fork_graph_def by (intro constructed.intros)
  have t: "topological_sort fork_graph = Inr [''b'', ''c'', ''a'']" by code_simp
  have a: "acyclic (edges fork_graph)"
    using topological_sort_cyclic [OF constructed_graph_ok [OF c]] t by auto
  from C3_fifo_order [OF c a] t c a show ?thesis by simp
qed

subsection \<open>The depth-first traversal on a well-formed graph\<close>

lemma walk_parents_some:
  assumes "wf (parent_rel parent)"
  shows "\<exists>ys. walk_parents parent dep (Some c) cycle = Some (cycle @ ys)"
  using assms
proof (induction c arbitrary: cycle rule: wf_induct_rule)
  case (less c)
  show ?case
  proof (cases "c = dep")
    case True
    then show ?thesis by (subst walk_parents.simps) simp
  next
    case False
    show ?thesis
    proof (cases "parent_get parent c")
      case None
      have "walk_parents parent dep None (cycle @ [c]) = Some (cycle @ [c])"
        by (subst walk_parents.simps) simp
      with False None show ?thesis by (subst walk_parents.simps) simp
    next
      case (Some p)
      then have "(p, c) \<in> parent_rel parent" by (simp add: parent_rel_def)
      from less.IH [OF this, of "cycle @ [c]"] obtain ys where
        "walk_parents parent dep (Some p) (cycle @ [c]) = Some ((cycle @ [c]) @ ys)" by blast
      with False Some show ?thesis by (subst walk_parents.simps) simp
    qed
  qed
qed

lemma walk_parents_total:
  assumes "wf (parent_rel parent)"
  shows "\<exists>ys. walk_parents parent dep cur cycle = Some (cycle @ ys)"
proof (cases cur)
  case None
  then show ?thesis by (subst walk_parents.simps) simp
next
  case (Some c)
  with walk_parents_some [OF assms] show ?thesis by simp
qed

lemma parent_get_update:
  "parent_get (AList.update k v parent) x = (if x = k then v else parent_get parent x)"
  by (simp add: parent_get_def update_conv')

lemma inv_parent_update:
  assumes inv: "inv_parent color parent"
    and white: "map_of color dep = Some WHITE" and gray: "map_of color node = Some GRAY"
  shows "inv_parent color (AList.update dep (Some node) parent)"
proof -
  let ?r = "{(p, x). (p, x) \<in> parent_rel parent \<and> x \<noteq> dep}"
  from inv have wf: "wf (parent_rel parent)"
    and nw: "\<And>p x. parent_get parent x = Some p \<Longrightarrow> map_of color p \<noteq> Some WHITE"
    by (auto simp: inv_parent_def)
  have eq: "parent_rel (AList.update dep (Some node) parent) = insert (node, dep) ?r"
    by (auto simp: parent_rel_def parent_get_update)
  have wfr: "wf ?r" by (rule wf_subset [OF wf]) auto
  have "(dep, node) \<notin> ?r\<^sup>*"
  proof
    assume "(dep, node) \<in> ?r\<^sup>*"
    then show False
    proof (cases rule: converse_rtranclE)
      case base
      with white gray show False by simp
    next
      case (step z)
      then have "parent_get parent z = Some dep" by (simp add: parent_rel_def)
      from nw [OF this] white show False by simp
    qed
  qed
  with wfr have "wf (insert (node, dep) ?r)" by (simp add: wf_insert)
  then have "wf (parent_rel (AList.update dep (Some node) parent))" by (simp add: eq)
  moreover have "map_of color p \<noteq> Some WHITE"
    if "parent_get (AList.update dep (Some node) parent) x = Some p" for p x
    using that nw gray by (auto simp: parent_get_update split: if_splits)
  ultimately show ?thesis by (simp add: inv_parent_def)
qed

lemma visit_deps_ok:
  assumes "set deps \<subseteq> dom (map_of color)" and "inv_parent color parent"
    and "map_of color node = Some GRAY"
  shows "\<exists>parent' found new.
           visit_deps color node deps parent cycles stack
             = Some (Inr (parent', cycles @ found, new @ stack))
           \<and> visit_post color deps parent' found new"
  using assms
proof (induction deps arbitrary: parent cycles stack)
  case Nil
  then show ?case by (simp add: visit_post_def)
next
  case (Cons dep deps)
  from Cons.prems obtain c where c: "map_of color dep = Some c" by auto
  from Cons.prems have sub: "set deps \<subseteq> dom (map_of color)" by simp
  note gray = Cons.prems(3)
  show ?case
  proof (cases c)
    case WHITE
    with c have w: "map_of color dep = Some WHITE" by simp
    from inv_parent_update [OF Cons.prems(2) w gray]
    have ip: "inv_parent color (AList.update dep (Some node) parent)" .
    from Cons.IH [OF sub ip gray, of cycles "(dep, False) # stack"]
    obtain parent' found new where
      v: "visit_deps color node deps (AList.update dep (Some node) parent) cycles
            ((dep, False) # stack) = Some (Inr (parent', cycles @ found, new @ (dep, False) # stack))"
      and p: "visit_post color deps parent' found new"
      by blast
    have "visit_deps color node (dep # deps) parent cycles stack
            = Some (Inr (parent', cycles @ found, (new @ [(dep, False)]) @ stack))"
      using v w by simp
    moreover have "visit_post color (dep # deps) parent' found (new @ [(dep, False)])"
      using p w unfolding visit_post_def by auto
    ultimately show ?thesis by blast
  next
    case GRAY
    with c have g: "map_of color dep = Some GRAY" by simp
    from Cons.prems(2) have "wf (parent_rel parent)" by (simp add: inv_parent_def)
    from walk_parents_total [OF this, of dep "parent_get parent node" "[dep, node]"]
    obtain ys where
      wp: "walk_parents parent dep (parent_get parent node) [dep, node] = Some ([dep, node] @ ys)"
      by blast
    let ?cyc = "rev ([dep, node] @ ys)"
    from Cons.IH [OF sub Cons.prems(2) gray, of "cycles @ [?cyc]" stack]
    obtain parent' found new where
      v: "visit_deps color node deps parent (cycles @ [?cyc]) stack
            = Some (Inr (parent', (cycles @ [?cyc]) @ found, new @ stack))"
      and p: "visit_post color deps parent' found new"
      by blast
    have "visit_deps color node (dep # deps) parent cycles stack
            = Some (Inr (parent', cycles @ (?cyc # found), new @ stack))"
      using v g wp by simp
    moreover have "visit_post color (dep # deps) parent' (?cyc # found) new"
      using p g unfolding visit_post_def by auto
    ultimately show ?thesis by blast
  next
    case BLACK
    with c have b: "map_of color dep = Some BLACK" by simp
    from Cons.IH [OF sub Cons.prems(2) gray, of cycles stack]
    obtain parent' found new where
      v: "visit_deps color node deps parent cycles stack
            = Some (Inr (parent', cycles @ found, new @ stack))"
      and p: "visit_post color deps parent' found new"
      by blast
    have "visit_deps color node (dep # deps) parent cycles stack
            = Some (Inr (parent', cycles @ found, new @ stack))"
      using v b by simp
    moreover have "visit_post color (dep # deps) parent' found new"
      using p b unfolding visit_post_def by auto
    ultimately show ?thesis by blast
  qed
qed

lemma covered_mono:
  assumes "\<And>d. map_of color d = Some BLACK \<or> d \<in> A \<Longrightarrow> map_of color' d = Some BLACK \<or> d \<in> A'"
    and "covered fw color A st"
  shows "covered fw color' A' st"
  using assms
proof (induction st arbitrary: A A')
  case Nil
  then show ?case by simp
next
  case (Cons e st)
  obtain n b where e: "e = (n, b)" by (cases e)
  from Cons.prems(2) e have h: "b \<longrightarrow> (\<forall>d \<in> adj fw n. map_of color d = Some BLACK \<or> d \<in> A)"
    and c: "covered fw color (insert n A) st" by simp_all
  have "covered fw color' (insert n A') st"
  proof (rule Cons.IH [OF _ c])
    fix d assume "map_of color d = Some BLACK \<or> d \<in> insert n A"
    with Cons.prems(1) [of d] show "map_of color' d = Some BLACK \<or> d \<in> insert n A'" by auto
  qed
  moreover from h Cons.prems(1)
  have "b \<longrightarrow> (\<forall>d \<in> adj fw n. map_of color' d = Some BLACK \<or> d \<in> A')" by blast
  ultimately show ?case by (simp add: e)
qed

lemma covered_push:
  assumes "\<forall>e \<in> set new. \<not> snd e"
  shows "covered fw color A (new @ st) = covered fw color (A \<union> fst ` set new) st"
  using assms
proof (induction new arbitrary: A)
  case Nil
  then show ?case by simp
next
  case (Cons e new)
  obtain n b where e: "e = (n, b)" by (cases e)
  with Cons.prems have b: "\<not> b" and r: "\<forall>e \<in> set new. \<not> snd e" by simp_all
  have "insert n A \<union> fst ` set new = A \<union> fst ` set (e # new)" by (auto simp: e)
  with Cons.IH [OF r, of "insert n A"] b show ?case by (simp add: e)
qed

lemma ordered_stack_push:
  assumes "\<forall>e \<in> set new. \<not> snd e \<and> (fst e, True) \<notin> set st"
  shows "ordered_stack (new @ st) = ordered_stack st"
  using assms
proof (induction new)
  case Nil
  then show ?case by simp
next
  case (Cons e new)
  obtain n b where e: "e = (n, b)" by (cases e)
  from Cons.prems e have "(n, True) \<notin> set new" by force
  with Cons e show ?case by simp
qed

lemma filter_snd_push:
  "\<forall>e \<in> set new. \<not> snd e \<Longrightarrow> filter snd (new @ st) = filter snd st"
  by (induction new) auto

lemma not_on_cycle:
  assumes deps: "\<And>d. d \<in> adj fw n \<Longrightarrow> (d, d) \<notin> (dep_rel fw)\<^sup>+"
  shows "(n, n) \<notin> (dep_rel fw)\<^sup>+"
proof
  assume "(n, n) \<in> (dep_rel fw)\<^sup>+"
  then obtain d where d: "(n, d) \<in> dep_rel fw" "(d, n) \<in> (dep_rel fw)\<^sup>*"
    by (meson tranclD)
  then have "(d, d) \<in> (dep_rel fw)\<^sup>+" by (meson rtrancl_into_trancl1)
  moreover from d(1) have "d \<in> adj fw n" by (simp add: dep_rel_def)
  ultimately show False using deps by blast
qed

lemma dfs_inv_pop_done:
  assumes inv: "dfs_inv fw N color parent cycles ((node, True) # stack)"
  shows "dfs_inv fw N (AList.update node BLACK color) parent cycles stack"
proof -
  let ?color = "AList.update node BLACK color"
  have m: "map_of ?color = (map_of color)(node \<mapsto> BLACK)" by (simp add: update_conv')
  from inv have keys: "inv_keys N color ((node, True) # stack)"
    and par: "inv_parent color parent"
    and gray: "inv_gray color ((node, True) # stack)"
    and found: "inv_found fw color cycles ((node, True) # stack)"
    by (simp_all add: dfs_inv_def)
  from keys have k: "inv_keys N ?color stack"
    by (auto simp: inv_keys_def m)
  from par have p: "inv_parent ?color parent"
    by (auto simp: inv_parent_def m)
  from gray have nt: "(node, True) \<notin> set stack" and d: "distinct (filter snd stack)"
    and o: "ordered_stack stack"
    and g: "\<And>n. (map_of color n = Some GRAY) = (n = node \<or> (n, True) \<in> set stack)"
    by (auto simp: inv_gray_def)
  have gr: "inv_gray ?color stack"
    unfolding inv_gray_def using nt d o g by (auto simp: m)
  have f: "inv_found fw ?color cycles stack"
    unfolding inv_found_def
  proof (intro conjI impI allI)
    from found show "\<forall>c \<in> set cycles. c \<noteq> []" by (simp add: inv_found_def)
  next
    assume e: "cycles = []"
    with found have c: "covered fw color {} ((node, True) # stack)"
      and b: "\<And>n. map_of color n = Some BLACK \<Longrightarrow> (n, n) \<notin> (dep_rel fw)\<^sup>+"
      by (auto simp: inv_found_def)
    from c have c1: "covered fw color {node} stack"
      and deps: "\<And>d. d \<in> adj fw node \<Longrightarrow> map_of color d = Some BLACK" by auto
    show "covered fw ?color {} stack"
      by (rule covered_mono [OF _ c1]) (auto simp: m)
    fix n assume n: "map_of ?color n = Some BLACK"
    show "(n, n) \<notin> (dep_rel fw)\<^sup>+"
    proof (cases "n = node")
      case True
      have "(node, node) \<notin> (dep_rel fw)\<^sup>+"
        by (rule not_on_cycle) (use deps b in blast)
      with True show ?thesis by simp
    next
      case False
      with n b show ?thesis by (simp add: m)
    qed
  qed
  from k p gr f show ?thesis by (simp add: dfs_inv_def)
qed

lemma dfs_inv_not_gray:
  assumes "dfs_inv fw N color parent cycles ((node, False) # stack)"
  shows "map_of color node \<noteq> Some GRAY \<and> node \<in> dom (map_of color)"
  using assms by (auto simp: dfs_inv_def inv_gray_def inv_keys_def)

lemma dfs_inv_visit:
  assumes inv: "dfs_inv fw N color parent cycles ((node, False) # stack)"
    and deps: "set deps = adj fw node" "adj fw node \<subseteq> N"
    and post: "visit_post (AList.update node GRAY color) deps parent' found new"
  shows "dfs_inv fw N (AList.update node GRAY color) parent' (cycles @ found)
           (new @ (node, True) # stack)"
proof -
  let ?color = "AList.update node GRAY color"
  have m: "map_of ?color = (map_of color)(node \<mapsto> GRAY)" by (simp add: update_conv')
  from inv have keys: "inv_keys N color ((node, False) # stack)"
    and gray: "inv_gray color ((node, False) # stack)"
    and found: "inv_found fw color cycles ((node, False) # stack)"
    by (simp_all add: dfs_inv_def)
  from post have new: "set new = {(d, False) | d. d \<in> set deps \<and> map_of ?color d = Some WHITE}"
    and par: "inv_parent ?color parent'"
    and fne: "\<forall>c \<in> set found. c \<noteq> []"
    and fgray: "(\<exists>d \<in> set deps. map_of ?color d = Some GRAY) \<longrightarrow> found \<noteq> []"
    by (simp_all add: visit_post_def)
  from new have newF: "\<forall>e \<in> set new. \<not> snd e" by auto
  from new have newW: "\<And>d. (d \<in> fst ` set new) = (d \<in> set deps \<and> map_of ?color d = Some WHITE)"
    by force
  from keys have dom: "dom (map_of color) = N" and nN: "node \<in> N" and sN: "fst ` set stack \<subseteq> N"
    by (auto simp: inv_keys_def)
  have "fst ` set new \<subseteq> N" using newW deps by blast
  with dom nN sN have k: "inv_keys N ?color (new @ (node, True) # stack)"
    unfolding inv_keys_def by (auto simp: m)
  from gray have nt: "(node, True) \<notin> set stack" and d: "distinct (filter snd stack)"
    and o: "ordered_stack stack"
    and g: "\<And>n. (map_of color n = Some GRAY) = ((n, True) \<in> set stack)"
    by (auto simp: inv_gray_def)
  have gr: "inv_gray ?color (new @ (node, True) # stack)"
    unfolding inv_gray_def
  proof (intro conjI allI)
    fix n
    show "(map_of ?color n = Some GRAY) = ((n, True) \<in> set (new @ (node, True) # stack))"
      using newF g [of n] by (auto simp: m)
    show "distinct (filter snd (new @ (node, True) # stack))"
      unfolding filter_snd_push [OF newF] using nt d by simp
    have "\<forall>e \<in> set new. \<not> snd e \<and> (fst e, True) \<notin> set ((node, True) # stack)"
    proof
      fix e assume e: "e \<in> set new"
      with new obtain dd where dd: "e = (dd, False)" "map_of ?color dd = Some WHITE" by auto
      then have "dd \<noteq> node" "map_of color dd \<noteq> Some GRAY" by (auto simp: m split: if_splits)
      with g [of dd] dd show "\<not> snd e \<and> (fst e, True) \<notin> set ((node, True) # stack)" by simp
    qed
    from ordered_stack_push [OF this] o
    show "ordered_stack (new @ (node, True) # stack)" by simp
  qed
  have f: "inv_found fw ?color (cycles @ found) (new @ (node, True) # stack)"
    unfolding inv_found_def
  proof (intro conjI impI allI)
    from found fne show "\<forall>c \<in> set (cycles @ found). c \<noteq> []" by (auto simp: inv_found_def)
  next
    assume e: "cycles @ found = []"
    with found have c: "covered fw color {} ((node, False) # stack)"
      and b: "\<And>n. map_of color n = Some BLACK \<Longrightarrow> (n, n) \<notin> (dep_rel fw)\<^sup>+"
      by (auto simp: inv_found_def)
    from e fgray have nog: "\<And>d. d \<in> set deps \<Longrightarrow> map_of ?color d \<noteq> Some GRAY" by auto
    from c have c1: "covered fw color {node} stack" by simp
    have c2: "covered fw ?color (insert node ({} \<union> fst ` set new)) stack"
      by (rule covered_mono [OF _ c1]) (auto simp: m)
    have "\<forall>d \<in> adj fw node. map_of ?color d = Some BLACK \<or> d \<in> {} \<union> fst ` set new"
    proof
      fix d assume dd: "d \<in> adj fw node"
      with deps dom have "d \<in> dom (map_of ?color)" by (auto simp: m)
      then obtain cc where cc: "map_of ?color d = Some cc" by auto
      from dd deps nog [of d] newW [of d] cc
      show "map_of ?color d = Some BLACK \<or> d \<in> {} \<union> fst ` set new"
        by (cases cc) auto
    qed
    with c2 show "covered fw ?color {} (new @ (node, True) # stack)"
      by (simp add: covered_push [OF newF])
    fix n assume "map_of ?color n = Some BLACK"
    then have "map_of color n = Some BLACK" by (auto simp: m split: if_splits)
    with b show "(n, n) \<notin> (dep_rel fw)\<^sup>+" .
  qed
  from k par gr f show ?thesis by (simp add: dfs_inv_def)
qed

lemma inv_parent_recolor:
  assumes "inv_parent color parent" and "c \<noteq> WHITE"
  shows "inv_parent (AList.update k c color) parent"
  using assms by (auto simp: inv_parent_def update_conv')

lemma dfs_loop_ok:
  assumes "\<forall>n. adj fw n \<subseteq> N" and "\<forall>n. finite (adj fw n)"
    and "dfs_inv fw N color parent cycles stack"
  shows "\<exists>color' parent' found.
           dfs_loop fw color parent cycles stack = Some (Inr (color', parent', cycles @ found))
           \<and> dfs_post fw N color cycles stack color' parent' found"
  using assms
proof (induction fw color parent cycles stack rule: dfs_loop.induct)
  case (1 fw color parent cycles)
  then have "dfs_post fw N color cycles [] color parent []"
    by (simp add: dfs_post_def)
  then show ?case by (intro exI [of _ color] exI [of _ parent] exI [of _ "[]"]) simp
next
  case (2 fw color parent cycles node processed stack)
  note sub = "2.prems"(1) and fin = "2.prems"(2) and inv = "2.prems"(3)
  show ?case
  proof (cases processed)
    case True
    let ?color = "AList.update node BLACK color"
    from inv True have "dfs_inv fw N ?color parent cycles stack"
      by (simp add: dfs_inv_pop_done)
    from "2.IH"(1) [OF True sub fin this] obtain color' parent' found where
      r: "dfs_loop fw ?color parent cycles stack = Some (Inr (color', parent', cycles @ found))"
      and p: "dfs_post fw N ?color cycles stack color' parent' found"
      by blast
    from p have "dfs_post fw N color cycles ((node, processed) # stack) color' parent' found"
      unfolding dfs_post_def by (auto simp: update_conv')
    moreover from r True
    have "dfs_loop fw color parent cycles ((node, processed) # stack)
            = Some (Inr (color', parent', cycles @ found))" by simp
    ultimately show ?thesis by blast
  next
    case False
    let ?color = "AList.update node GRAY color"
    let ?deps = "sorted_list_of_set (adj fw node)"
    from inv False have inv': "dfs_inv fw N color parent cycles ((node, False) # stack)" by simp
    from dfs_inv_not_gray [OF inv'] obtain c where
      c: "map_of color node = Some c" "c \<noteq> GRAY" by auto
    from fin have sd: "set ?deps = adj fw node" by simp
    from inv' have dom: "dom (map_of color) = N" by (simp add: dfs_inv_def inv_keys_def)
    from c(1) dom have domc: "dom (map_of ?color) = N" by (auto simp: update_conv')
    from sub sd domc have d1: "set ?deps \<subseteq> dom (map_of ?color)" by simp
    from inv' have "inv_parent color parent" by (simp add: dfs_inv_def)
    then have ip: "inv_parent ?color parent" by (rule inv_parent_recolor) simp
    have g: "map_of ?color node = Some GRAY" by (simp add: update_conv')
    from visit_deps_ok [OF d1 ip g, of cycles "(node, True) # stack"]
    obtain parent1 found1 new where
      v: "visit_deps ?color node ?deps parent cycles ((node, True) # stack)
            = Some (Inr (parent1, cycles @ found1, new @ (node, True) # stack))"
      and vp: "visit_post ?color ?deps parent1 found1 new"
      by blast
    from sub have "adj fw node \<subseteq> N" by simp
    from dfs_inv_visit [OF inv' sd this vp]
    have inv1: "dfs_inv fw N ?color parent1 (cycles @ found1) (new @ (node, True) # stack)" .
    from "2.IH"(3) [OF False c v refl refl refl sub fin inv1]
    obtain color' parent' found2 where
      r: "dfs_loop fw ?color parent1 (cycles @ found1) (new @ (node, True) # stack)
            = Some (Inr (color', parent', (cycles @ found1) @ found2))"
      and p: "dfs_post fw N ?color (cycles @ found1) (new @ (node, True) # stack)
                color' parent' found2"
      by blast
    from r v c False
    have "dfs_loop fw color parent cycles ((node, processed) # stack)
            = Some (Inr (color', parent', cycles @ (found1 @ found2)))" by simp
    moreover from p
    have "dfs_post fw N color cycles ((node, processed) # stack) color' parent' (found1 @ found2)"
      unfolding dfs_post_def by (auto simp: update_conv')
    ultimately show ?thesis by blast
  qed
qed

lemma dfs_inv_start:
  assumes "dfs_inv fw N color parent cycles []" and "start \<in> N"
  shows "dfs_inv fw N color parent cycles [(start, False)]"
  using assms by (simp add: dfs_inv_def inv_keys_def inv_gray_def inv_found_def)

lemma dfs_starts_ok:
  assumes "\<forall>n. adj fw n \<subseteq> N" and "\<forall>n. finite (adj fw n)"
    and "dfs_inv fw N color parent cycles []" and "set starts \<subseteq> N"
  shows "\<exists>found. dfs_starts fw starts color parent cycles = Some (Inr (cycles @ found))
           \<and> starts_post fw N color starts (cycles @ found)"
  using assms(3,4)
proof (induction starts arbitrary: color parent cycles)
  case Nil
  then have "starts_post fw N color [] (cycles @ [])"
    unfolding starts_post_def by auto
  then show ?case by (intro exI [of _ "[]"]) simp
next
  case (Cons start starts)
  note sub = assms(1) and fin = assms(2)
  from Cons.prems have sN: "start \<in> N" and rest: "set starts \<subseteq> N" by simp_all
  from Cons.prems(1) have "dom (map_of color) = N" by (simp add: dfs_inv_def inv_keys_def)
  with sN obtain c where c: "map_of color start = Some c" by auto
  show ?case
  proof (cases "c = WHITE")
    case False
    from Cons.IH [OF Cons.prems(1) rest] obtain found where
      r: "dfs_starts fw starts color parent cycles = Some (Inr (cycles @ found))"
      and p: "starts_post fw N color starts (cycles @ found)" by blast
    from p c False have "starts_post fw N color (start # starts) (cycles @ found)"
      unfolding starts_post_def by auto
    moreover from r c False
    have "dfs_starts fw (start # starts) color parent cycles = Some (Inr (cycles @ found))" by simp
    ultimately show ?thesis by blast
  next
    case True
    from dfs_loop_ok [OF sub fin dfs_inv_start [OF Cons.prems(1) sN]]
    obtain color1 parent1 found1 where
      l: "dfs_loop fw color parent cycles [(start, False)]
            = Some (Inr (color1, parent1, cycles @ found1))"
      and lp: "dfs_post fw N color cycles [(start, False)] color1 parent1 found1"
      by blast
    from lp have inv1: "dfs_inv fw N color1 parent1 (cycles @ found1) []"
      and mono: "\<And>n. map_of color n \<noteq> Some WHITE \<Longrightarrow> map_of color1 n \<noteq> Some WHITE"
      and st: "map_of color1 start \<noteq> Some WHITE"
      by (simp_all add: dfs_post_def)
    from Cons.IH [OF inv1 rest] obtain found2 where
      r: "dfs_starts fw starts color1 parent1 (cycles @ found1)
            = Some (Inr ((cycles @ found1) @ found2))"
      and p: "starts_post fw N color1 starts ((cycles @ found1) @ found2)" by blast
    from p mono st have "starts_post fw N color (start # starts) (cycles @ (found1 @ found2))"
      unfolding starts_post_def by auto
    moreover from r l c True
    have "dfs_starts fw (start # starts) color parent cycles
            = Some (Inr (cycles @ (found1 @ found2)))" by simp
    ultimately show ?thesis by blast
  qed
qed

lemma edges_dep_rel: "edges g = dep_rel (forward g)"
  by (simp add: edges_def dep_rel_def)

lemma dfs_inv_init:
  assumes "finite N"
  shows "dfs_inv fw N (map (\<lambda>n. (n, WHITE)) (sorted_list_of_set N))
           (map (\<lambda>n. (n, None)) (sorted_list_of_set N)) [] []"
proof -
  let ?color = "map (\<lambda>n. (n, WHITE)) (sorted_list_of_set N)"
  let ?parent = "map (\<lambda>n. (n, None :: string option)) (sorted_list_of_set N)"
  have c: "map_of ?color n = (if n \<in> N then Some WHITE else None)" for n
    using assms by (simp add: map_of_map_restrict restrict_map_def)
  have p: "parent_get ?parent x = None" for x
    by (simp add: parent_get_def map_of_map_restrict restrict_map_def)
  have "dom (map_of ?color) = N" using c by (auto simp: dom_def)
  then have "inv_keys N ?color []" by (simp add: inv_keys_def)
  moreover have "inv_parent ?color ?parent" by (simp add: inv_parent_def parent_rel_def p)
  moreover have "inv_gray ?color []" by (simp add: inv_gray_def c)
  moreover have "inv_found fw ?color [] []" by (simp add: inv_found_def c)
  ultimately show ?thesis by (simp add: dfs_inv_def)
qed

lemma detect_cycles_result:
  assumes ok: "graph_ok g"
  shows "\<exists>cycles. detect_cycles g = Some (Inr cycles)
           \<and> (\<forall>c \<in> set cycles. c \<noteq> []) \<and> (cycles = [] \<longrightarrow> acyclic (edges g))"
proof -
  let ?N = "nodes g" and ?fw = "forward g"
  from ok have fin: "finite ?N" and sub: "\<forall>n. adj ?fw n \<subseteq> ?N"
    by (simp_all add: graph_ok_def)
  from ok have fa: "\<forall>n. finite (adj ?fw n)" using graph_ok_finite_adj by blast
  from fin have st: "set (sorted_list_of_set ?N) \<subseteq> ?N" by simp
  from dfs_starts_ok [OF sub fa dfs_inv_init [OF fin] st] obtain found where
    r: "detect_cycles g = Some (Inr found)"
    and p: "starts_post ?fw ?N (map (\<lambda>n. (n, WHITE)) (sorted_list_of_set ?N))
              (sorted_list_of_set ?N) found"
    by (auto simp: detect_cycles_def)
  from p obtain color' parent' where
    inv: "dfs_inv ?fw ?N color' parent' found []"
    and nw: "\<And>s. s \<in> ?N \<Longrightarrow> map_of color' s \<noteq> Some WHITE"
    using fin unfolding starts_post_def by auto
  from inv have ne: "\<forall>c \<in> set found. c \<noteq> []" by (simp add: dfs_inv_def inv_found_def)
  have "acyclic (edges g)" if e: "found = []"
  proof -
    from inv e have b: "\<And>n. map_of color' n = Some BLACK \<Longrightarrow> (n, n) \<notin> (dep_rel ?fw)\<^sup>+"
      and ng: "\<And>n. map_of color' n \<noteq> Some GRAY"
      and dom: "dom (map_of color') = ?N"
      by (auto simp: dfs_inv_def inv_found_def inv_gray_def inv_keys_def)
    have "(x, x) \<notin> (edges g)\<^sup>+" for x
    proof
      assume x: "(x, x) \<in> (edges g)\<^sup>+"
      then have xN: "x \<in> ?N" using edges_subset [OF ok]
        by (metis (no_types, lifting) mem_Sigma_iff subsetD tranclD)
      with dom obtain c where c: "map_of color' x = Some c" by auto
      with nw [OF xN] ng [of x] have "map_of color' x = Some BLACK" by (cases c) auto
      from b [OF this] x show False by (simp add: edges_dep_rel)
    qed
    then show ?thesis by (simp add: acyclic_def)
  qed
  with r ne show ?thesis by blast
qed

lemma foldl_snoc_map: "foldl (\<lambda>acc x. acc @ [f x]) acc xs = acc @ map f xs"
  by (induction xs arbitrary: acc) simp_all

lemma analyze_result:
  assumes "detect_cycles g = Some (Inr cycles)"
  shows "analyze g = Some (Inr
           ((if length (find_heads g) > 1 then [multiple_heads_issue (find_heads g)] else [])
            @ map cycle_issue cycles
            @ map missing_dependency_issue (missing_dependencies g)
            @ (if find_orphans g \<noteq> [] then [orphan_issue (find_orphans g)] else [])))"
proof -
  have h: "(detect_multiple_heads g \<noteq> []) = (length (find_heads g) > 1)"
    by (auto simp: detect_multiple_heads_def Let_def)
  have h2: "length (find_heads g) > 1 \<Longrightarrow> detect_multiple_heads g = find_heads g"
    by (simp add: detect_multiple_heads_def Let_def)
  show ?thesis
    using assms h h2 by (simp add: analyze_def Let_def foldl_snoc_map)
qed

lemma kahn_loop_fifo:
  assumes ok: "graph_ok g"
  shows "kahn_loop (reverse g) (in_degree_init g)
           (sorted_list_of_set {n \<in> nodes g. map_of (in_degree_init g) n = Some 0}) []
         = Inr (fifo_order g)"
proof -
  from kahn_loop_result [OF ok kahn_inv_init [OF ok], of "card (nodes g)"]
  show ?thesis by (auto simp: fifo_order_def init_queue_eq [OF ok])
qed

text \<open>
  C4. On every graph that contains a cycle, \<open>topological_sort\<close> fails with the cycle
  error, and it does so because its loop has emitted fewer nodes than the graph has;
  \<open>detect_cycles\<close> returns at least one path, and every path it returns is
  non-empty. (On every graph the error is raised exactly when fewer nodes are emitted
  than exist: \<open>topological_sort_error_iff\<close>.)
\<close>

theorem C4_cycle_detected:
  assumes "constructed g" and "\<not> acyclic (edges g)"
  shows "topological_sort g = Inl (ValueError cycle_message)
         \<and> (\<exists>result. kahn_loop (reverse g) (in_degree_init g)
                (sorted_list_of_set {n \<in> nodes g. map_of (in_degree_init g) n = Some 0}) []
              = Inr result
              \<and> length result < card (nodes g))
         \<and> (\<exists>cycles. detect_cycles g = Some (Inr cycles)
              \<and> cycles \<noteq> [] \<and> (\<forall>c \<in> set cycles. c \<noteq> []))"
proof -
  from assms(1) have ok: "graph_ok g" by (rule constructed_graph_ok)
  from topological_sort_cyclic [OF ok assms(2)] kahn_loop_fifo [OF ok]
  have "topological_sort g = Inl (ValueError cycle_message)"
    and "\<exists>result. kahn_loop (reverse g) (in_degree_init g)
                (sorted_list_of_set {n \<in> nodes g. map_of (in_degree_init g) n = Some 0}) []
              = Inr result
              \<and> length result < card (nodes g)"
    by simp_all
  moreover from detect_cycles_result [OF ok] assms(2)
  have "\<exists>cycles. detect_cycles g = Some (Inr cycles)
              \<and> cycles \<noteq> [] \<and> (\<forall>c \<in> set cycles. c \<noteq> [])"
    by blast
  ultimately show ?thesis by blast
qed

lemma cycle_graph_constructed: "constructed cycle_graph"
  unfolding cycle_graph_def by (intro constructed.intros)

lemma cycle_graph_cyclic: "\<not> acyclic (edges cycle_graph)"
proof -
  have "(''a'', ''b'') \<in> edges cycle_graph" "(''b'', ''a'') \<in> edges cycle_graph"
    by (simp_all add: edges_def cycle_graph_def add_edge_def adj_dd_add)
  then have "(''a'', ''a'') \<in> (edges cycle_graph)\<^sup>+" by (meson trancl.intros)
  then show ?thesis by (auto simp: acyclic_def)
qed

theorem C4_cycle_detected_witness:
  "constructed cycle_graph \<and> \<not> acyclic (edges cycle_graph)
   \<and> topological_sort cycle_graph = Inl (ValueError cycle_message)
   \<and> detect_cycles cycle_graph = Some (Inr [[''b'', ''a'']])"
proof -
  have d: "detect_cycles cycle_graph = Some (Inr [[''b'', ''a'']])" by code_simp
  from C4_cycle_detected [OF cycle_graph_constructed cycle_graph_cyclic] d
    cycle_graph_constructed cycle_graph_cyclic
  show ?thesis by simp
qed

text \<open>
  C6. On every graph \<open>analyze\<close> returns (it neither raises nor runs forever, with or
  without cycles), and its issues come in this order: one critical multiple-heads issue
  exactly if there is more than one head, then one critical issue for each cycle that
  \<open>detect_cycles\<close> returns, then one critical issue for each pair of
  \<open>missing_dependencies\<close>, then one warning for all orphans together exactly if there
  is an orphan.
\<close>

theorem C6_analyze_never_fails_fixed_order:
  assumes "constructed g"
  shows "\<exists>cycles. detect_cycles g = Some (Inr cycles)
           \<and> analyze g = Some (Inr
               ((if length (find_heads g) > 1 then [multiple_heads_issue (find_heads g)] else [])
                @ map cycle_issue cycles
                @ map missing_dependency_issue (missing_dependencies g)
                @ (if find_orphans g \<noteq> [] then [orphan_issue (find_orphans g)] else [])))
           \<and> issue_type (multiple_heads_issue (find_heads g)) = ''multiple_heads''
           \<and> issue_severity (multiple_heads_issue (find_heads g)) = ''critical''
           \<and> list_all (\<lambda>i. issue_type i = ''cycle'' \<and> issue_severity i = ''critical'')
                (map cycle_issue cycles)
           \<and> list_all (\<lambda>i. issue_type i = ''missing_dependency'' \<and> issue_severity i = ''critical'')
                (map missing_dependency_issue (missing_dependencies g))
           \<and> issue_type (orphan_issue (find_orphans g)) = ''orphan''
           \<and> issue_severity (orphan_issue (find_orphans g)) = ''warning''"
proof -
  from detect_cycles_result [OF constructed_graph_ok [OF assms]] obtain cycles where
    d: "detect_cycles g = Some (Inr cycles)" by blast
  have "list_all (\<lambda>i. issue_type i = ''cycle'' \<and> issue_severity i = ''critical'')
          (map cycle_issue cycles)"
    by (simp add: list_all_iff cycle_issue_def)
  moreover have "list_all (\<lambda>i. issue_type i = ''missing_dependency'' \<and> issue_severity i = ''critical'')
                (map missing_dependency_issue (missing_dependencies g))"
    by (simp add: list_all_iff missing_dependency_issue_def)
  ultimately show ?thesis
    using d analyze_result [OF d]
    by (intro exI [of _ cycles]) (simp add: multiple_heads_issue_def orphan_issue_def)
qed

lemma mixed_graph_constructed: "constructed mixed_graph"
  unfolding mixed_graph_def by (intro constructed.intros)

theorem C6_analyze_never_fails_fixed_order_witness:
  "constructed mixed_graph
   \<and> detect_cycles mixed_graph = Some (Inr [[''b'', ''a'']])
   \<and> analyze mixed_graph = Some (Inr
       [multiple_heads_issue [''c'', ''z''], cycle_issue [''b'', ''a''], orphan_issue [''z'']])"
proof -
  have d: "detect_cycles mixed_graph = Some (Inr [[''b'', ''a'']])" by code_simp
  have h: "find_heads mixed_graph = [''c'', ''z'']" by code_simp
  have o: "find_orphans mixed_graph = [''z'']" by code_simp
  have m: "missing_dependencies mixed_graph = []"
    by (rule deps_closed_no_missing [OF constructed_deps_closed [OF mixed_graph_constructed]])
  from C6_analyze_never_fails_fixed_order [OF mixed_graph_constructed] d h o m
    mixed_graph_constructed
  show ?thesis by simp
qed

end
